theory Spec2Isabelle
  imports Main "HOL-Library.Char_ord" "HOL-Library.List_Lexorder"
begin

section \<open>Python strings\<close>

text \<open>
  A Python \<open>str\<close> is a sequence of code points. The model uses \<open>string\<close>
  (a list of 8-bit \<open>char\<close>), each \<open>char\<close> read as the code point of the same
  number, so the strings of the model are the Python strings over code points 0..255.
  The character predicates below are the ones CPython uses on that range.
\<close>

definition LF :: char where
  "LF = CHR 0x0A"

definition CR :: char where
  "CR = CHR 0x0D"

definition EOL :: string where
  "EOL = [CR, LF]"

text \<open>\<open>str.isspace\<close> of one character, which is also the class \<open>\s\<close> of \<open>re\<close>
  on a \<open>str\<close> pattern: TAB..CR, FS..US, space, NEL and NBSP.\<close>

definition isspace :: "char \<Rightarrow> bool" where
  "isspace c = ((of_char c :: nat) \<in> {9, 10, 11, 12, 13, 28, 29, 30, 31, 32, 133, 160})"

text \<open>The line boundaries of \<open>str.splitlines\<close>.\<close>

definition is_linebreak :: "char \<Rightarrow> bool" where
  "is_linebreak c = ((of_char c :: nat) \<in> {10, 11, 12, 13, 28, 29, 30, 133})"

text \<open>\<open>str.lower\<close> of one character: A..Z and the capital letters of Latin-1.\<close>

definition lower_char :: "char \<Rightarrow> char" where
  "lower_char c =
     (let n = (of_char c :: nat)
      in if (65 \<le> n \<and> n \<le> 90) \<or> (192 \<le> n \<and> n \<le> 222 \<and> n \<noteq> 215)
         then char_of (n + 32) else c)"

definition lower :: "string \<Rightarrow> string" where
  "lower s = map lower_char s"

definition lstrip :: "string \<Rightarrow> string" where
  "lstrip s = dropWhile isspace s"

definition rstrip :: "string \<Rightarrow> string" where
  "rstrip s = rev (dropWhile isspace (rev s))"

definition strip :: "string \<Rightarrow> string" where
  "strip s = rstrip (lstrip s)"

definition startswith :: "string \<Rightarrow> string \<Rightarrow> bool" where
  "startswith s p = (take (length p) s = p)"

definition endswith :: "string \<Rightarrow> string \<Rightarrow> bool" where
  "endswith s p = (length p \<le> length s \<and> drop (length s - length p) s = p)"

text \<open>\<open>sep.join(parts)\<close>.\<close>

fun join :: "string \<Rightarrow> string list \<Rightarrow> string" where
  "join sep [] = []"
| "join sep [x] = x"
| "join sep (x # y # zs) = x @ sep @ join sep (y # zs)"

text \<open>\<open>str.splitlines()\<close>: a line ends at a line boundary, CR LF counts as one
  boundary, and no empty line is reported after the last boundary. The first argument
  is the line read so far.\<close>

fun splitlines_from :: "string \<Rightarrow> string \<Rightarrow> string list" where
  "splitlines_from cur [] = (if cur = [] then [] else [cur])"
| "splitlines_from cur [c] = (if is_linebreak c then [cur] else [cur @ [c]])"
| "splitlines_from cur (c # d # s) =
     (if c = CR \<and> d = LF then cur # splitlines_from [] s
      else if is_linebreak c then cur # splitlines_from [] (d # s)
      else splitlines_from (cur @ [c]) (d # s))"

definition splitlines :: "string \<Rightarrow> string list" where
  "splitlines s = splitlines_from [] s"

text \<open>\<open>s.split(c, n)\<close> and \<open>s.rsplit(c, n)\<close> for a one-character separator:
  at most \<open>n\<close> splits, counted from the left and from the right.\<close>

fun split_from :: "char \<Rightarrow> nat \<Rightarrow> string \<Rightarrow> string \<Rightarrow> string list" where
  "split_from c n cur [] = [cur]"
| "split_from c 0 cur (x # s) = [cur @ x # s]"
| "split_from c (Suc n) cur (x # s) =
     (if x = c then cur # split_from c n [] s else split_from c (Suc n) (cur @ [x]) s)"

definition split :: "char \<Rightarrow> nat \<Rightarrow> string \<Rightarrow> string list" where
  "split c n s = split_from c n [] s"

definition rsplit :: "char \<Rightarrow> nat \<Rightarrow> string \<Rightarrow> string list" where
  "rsplit c n s = rev (map rev (split c n (rev s)))"

text \<open>\<open>os.path.basename\<close> (POSIX): what follows the last slash.\<close>

definition basename :: "string \<Rightarrow> string" where
  "basename p = rev (takeWhile (\<lambda>c. c \<noteq> CHR ''/'') (rev p))"

text \<open>\<open>str(n)\<close> for a non-negative integer.\<close>

definition digit_char :: "nat \<Rightarrow> char" where
  "digit_char d = char_of (48 + d)"

function str_of_nat :: "nat \<Rightarrow> string" where
  "str_of_nat n = (if n < 10 then [digit_char n] else str_of_nat (n div 10) @ [digit_char (n mod 10)])"
  by pat_completeness auto
termination
  by (relation "measure id") auto

section \<open>Regular expressions\<close>

text \<open>
  The patterns of the program use character classes, concatenation, greedy
  \<open>?\<close>, \<open>*\<close>, \<open>+\<close> and \<open>{2,}\<close>, the anchors \<open>^\<close> and \<open>$\<close>, and at most one group.
  \<open>re\<close> is a backtracking matcher: \<open>ms r w s\<close> lists, in the order the matcher tries
  them, the rests of \<open>s\<close> that matching \<open>r\<close> at the start of \<open>s\<close> can leave (\<open>w\<close> is the
  whole subject, for the anchors). The first rest with which the remainder of the
  pattern succeeds is the match.
\<close>

datatype cclass =
    Space               \<comment> \<open>\<open>\s\<close>\<close>
  | Dot                 \<comment> \<open>\<open>.\<close>: anything but a newline\<close>
  | Lit char            \<comment> \<open>a literal character\<close>
  | LitNoCase char      \<comment> \<open>a literal character under \<open>re.IGNORECASE\<close>\<close>
  | NotLit char         \<comment> \<open>\<open>[^c]\<close>\<close>

fun cmatch :: "cclass \<Rightarrow> char \<Rightarrow> bool" where
  "cmatch Space x = isspace x"
| "cmatch Dot x = (x \<noteq> LF)"
| "cmatch (Lit c) x = (x = c)"
| "cmatch (LitNoCase c) x = (lower_char x = lower_char c)"
| "cmatch (NotLit c) x = (x \<noteq> c)"

datatype regex =
    Eps
  | Atom cclass
  | Seq regex regex
  | Opt regex
  | Star regex
  | Bol
  | Eol

fun ms :: "regex \<Rightarrow> string \<Rightarrow> string \<Rightarrow> string list" where
  "ms Eps w s = [s]"
| "ms (Atom c) w [] = []"
| "ms (Atom c) w (x # t) = (if cmatch c x then [t] else [])"
| "ms (Seq a b) w s = concat (map (ms b w) (ms a w s))"
| "ms (Opt a) w s = ms a w s @ [s]"
| "ms (Star a) w s =
     concat (map (\<lambda>t. if length t < length s then ms (Star a) w t else []) (ms a w s)) @ [s]"
| "ms Bol w s = (if length s = length w then [s] else [])"
| "ms Eol w s = (if s = [] \<or> s = [LF] then [s] else [])"

definition Plus :: "regex \<Rightarrow> regex" where
  "Plus r = Seq r (Star r)"

definition AtLeast2 :: "regex \<Rightarrow> regex" where
  "AtLeast2 r = Seq r (Seq r (Star r))"

text \<open>\<open>re.escape(key)\<close> inside a pattern compiled with \<open>re.IGNORECASE\<close>.\<close>

fun literal_nocase :: "string \<Rightarrow> regex" where
  "literal_nocase [] = Eps"
| "literal_nocase (c # cs) = Seq (Atom (LitNoCase c)) (literal_nocase cs)"

text \<open>\<open>re.match\<close> of a pattern \<open>pre(grp)post\<close>: every text the group can capture, in the
  matcher's order. \<open>m.group(1)\<close> is the first one; no match is the empty list.\<close>

definition captures :: "regex \<Rightarrow> regex \<Rightarrow> regex \<Rightarrow> string \<Rightarrow> string list" where
  "captures pre grp post s =
     concat (map (\<lambda>t1. concat (map (\<lambda>t2. if ms post s t2 = [] then []
                                           else [take (length t1 - length t2) t1])
                                    (ms grp s t1)))
                 (ms pre s s))"

definition match_group :: "regex \<Rightarrow> regex \<Rightarrow> regex \<Rightarrow> string \<Rightarrow> string option" where
  "match_group pre grp post s = (case captures pre grp post s of [] \<Rightarrow> None | g # _ \<Rightarrow> Some g)"

text \<open>\<open>re.split\<close> for a pattern without groups: scan for the leftmost match, cut there,
  go on after it. The second string is the part read so far. (A pattern that matches the
  empty string is not cut at; the separator of this program never does.)\<close>

function re_split_from :: "regex \<Rightarrow> string \<Rightarrow> string \<Rightarrow> string \<Rightarrow> string list" where
  "re_split_from r w cur s =
     (case ms r w s of
        t # _ \<Rightarrow>
          if length t < length s then cur # re_split_from r w [] t
          else (case s of [] \<Rightarrow> [cur] | x # s' \<Rightarrow> re_split_from r w (cur @ [x]) s')
      | [] \<Rightarrow> (case s of [] \<Rightarrow> [cur] | x # s' \<Rightarrow> re_split_from r w (cur @ [x]) s'))"
  by pat_completeness auto
termination
  by (relation "measure (\<lambda>(r, w, cur, s). length s)") auto

definition re_split :: "regex \<Rightarrow> string \<Rightarrow> string list" where
  "re_split r s = re_split_from r s [] s"

section \<open>StanzaStore\<close>

text \<open>The separator \<open>(?:\r?\n){2,}\<close>, with \<open>\r?\n\<close> named.\<close>

definition line_break :: regex where
  "line_break = Seq (Opt (Atom (Lit CR))) (Atom (Lit LF))"

definition stanza_sep :: regex where
  "stanza_sep = AtLeast2 line_break"

definition parse_stanzas :: "string \<Rightarrow> string list" where
  "parse_stanzas text = filter (\<lambda>p. strip p \<noteq> []) (re_split stanza_sep text)"

definition join_stanzas :: "string list \<Rightarrow> string" where
  "join_stanzas stanzas = join (EOL @ EOL) (map strip stanzas) @ EOL"

section \<open>FieldAccessor\<close>

text \<open>The pattern \<open>^\s*KEY\s*:\s*(.+)$\<close> of \<open>get_field\<close>, compiled with
  \<open>re.IGNORECASE\<close>, as prefix, group and suffix.\<close>

definition field_pre :: "string \<Rightarrow> regex" where
  "field_pre key =
     Seq Bol (Seq (Star (Atom Space)) (Seq (literal_nocase key)
       (Seq (Star (Atom Space)) (Seq (Atom (Lit (CHR '':''))) (Star (Atom Space))))))"

definition field_match :: "string \<Rightarrow> string \<Rightarrow> string option" where
  "field_match key ln = match_group (field_pre key) (Plus (Atom Dot)) Eol ln"

fun get_field_from :: "nat \<Rightarrow> string list \<Rightarrow> string \<Rightarrow> (nat \<times> string) option" where
  "get_field_from i [] key = None"
| "get_field_from i (ln # rest) key =
     (case field_match key ln of
        Some g \<Rightarrow> Some (i, strip g)
      | None \<Rightarrow> get_field_from (Suc i) rest key)"

text \<open>\<open>get_field\<close> returns \<open>(None, None)\<close> or an index with a value: an option of a pair.\<close>

definition get_field :: "string list \<Rightarrow> string \<Rightarrow> (nat \<times> string) option" where
  "get_field lines key = get_field_from 0 lines key"

definition set_field :: "string list \<Rightarrow> string \<Rightarrow> string \<Rightarrow> string list" where
  "set_field lines key v =
     (let line = key @ '': '' @ v
      in case get_field lines key of
           None \<Rightarrow> lines @ [line]
         | Some (idx, _) \<Rightarrow> lines[idx := line])"

text \<open>The pattern \<open>^\s*([^:]+)\s*:\s*\<close> of \<open>remove_fields\<close>.\<close>

definition name_match :: "string \<Rightarrow> string option" where
  "name_match ln =
     match_group (Seq Bol (Star (Atom Space))) (Plus (Atom (NotLit (CHR '':''))))
       (Seq (Star (Atom Space)) (Seq (Atom (Lit (CHR '':''))) (Star (Atom Space)))) ln"

definition removed :: "string list \<Rightarrow> string \<Rightarrow> bool" where
  "removed keys ln =
     (case name_match ln of
        Some g \<Rightarrow> lower (strip g) \<in> lower ` set keys
      | None \<Rightarrow> False)"

definition remove_fields :: "string list \<Rightarrow> string list \<Rightarrow> string list" where
  "remove_fields lines keys = filter (\<lambda>ln. \<not> removed keys ln) lines"

section \<open>MetadataReconciler\<close>

definition parse_deb_filename :: "string \<Rightarrow> (string \<times> string \<times> string) option" where
  "parse_deb_filename name =
     (if \<not> endswith name ''.deb'' then None
      else let base = take (length name - 4) name
           in case rsplit (CHR ''_'') 2 base of
                [pkg, ver, arch] \<Rightarrow>
                  Some (pkg,
                        (if (startswith ver ''v'' \<or> startswith ver ''V'') \<and> length ver > 1
                         then drop 1 ver else ver),
                        (if CHR ''.'' \<in> set arch then hd (split (CHR ''.'') 1 arch) else arch))
              | _ \<Rightarrow> None)"

section \<open>Exceptions\<close>

text \<open>The exceptions the program can end with: an index outside a list, a pattern
  \<open>Path.glob\<close> refuses, a directory opened as a file, any other failure to read.\<close>

datatype py_error = IndexError | ValueError | IsADirectoryError | OSError

section \<open>The file system, as the program observes it\<close>

text \<open>
  The planner reads the artifact directory \<open>debs\<close> and the icon directory only through
  the calls below; a \<open>filesystem\<close> holds their results. Names are single path
  components under the directory. \<open>exists()\<close> answers for every path (a directory exists
  too; the empty name and \<open>.\<close> are the directory itself). \<open>glob\<close> raises on a pattern it
  refuses (\<open>**\<close> inside a component), and \<open>stat\<close> and \<open>file_hash\<close>, which opens the path
  and feeds it to \<open>hashlib\<close>, raise when the path cannot be read as a file: \<open>Inl\<close> is the
  exception. Nothing in the program catches an exception.
\<close>

record filesystem =
  deb_exists :: "string \<Rightarrow> bool"                       \<comment> \<open>\<open>(DEBS / name).exists()\<close>\<close>
  deb_glob :: "string \<Rightarrow> py_error + string list"       \<comment> \<open>names from \<open>DEBS.glob(pattern)\<close>, in the directory's order\<close>
  deb_size :: "string \<Rightarrow> py_error + nat"               \<comment> \<open>\<open>(DEBS / name).stat().st_size\<close>\<close>
  deb_hash :: "string \<Rightarrow> string \<Rightarrow> py_error + string"   \<comment> \<open>\<open>file_hash(DEBS / name, algo)\<close>\<close>
  icons_dir_exists :: bool                              \<comment> \<open>\<open>icons_dir.exists()\<close>\<close>
  icon_exists :: "string \<Rightarrow> bool"                      \<comment> \<open>\<open>(icons_dir / name).exists()\<close>\<close>

section \<open>UpdatePlan\<close>

record update_plan =
  stanza_index :: nat
  filename :: string
  size_bytes :: nat                            \<comment> \<open>the field \<open>size\<close>\<close>
  md5 :: string
  sha1 :: string
  sha256 :: string
  fix_pkg :: "string option"
  fix_ver :: "string option"
  fix_arch :: "string option"
  fix_filename :: "string option"
  icon_url :: "string option"

text \<open>Python's truth value of an \<open>Optional[str]\<close>: neither \<open>None\<close> nor empty.\<close>

fun truthy :: "string option \<Rightarrow> bool" where
  "truthy None = False"
| "truthy (Some s) = (s \<noteq> [])"

section \<open>IconResolver\<close>

definition icon_exts :: "string list" where
  "icon_exts = [''.png'', ''.jpg'', ''.jpeg'', ''.webp'']"

definition find_icon_for_package ::
  "filesystem \<Rightarrow> string option \<Rightarrow> string option \<Rightarrow> string option" where
  "find_icon_for_package fs package_id icon_url_prefix =
     (if \<not> truthy package_id \<or> \<not> icons_dir_exists fs then None
      else case find (\<lambda>ext. icon_exists fs (the package_id @ ext)) icon_exts of
             None \<Rightarrow> None
           | Some ext \<Rightarrow>
               let icon_name = map (\<lambda>c. if c = CHR 0x5C then CHR ''/'' else c)
                                   (basename (the package_id @ ext))
               in if truthy icon_url_prefix
                  then Some (rev (dropWhile (\<lambda>c. c = CHR ''/'') (rev (the icon_url_prefix)))
                             @ ''/'' @ icon_name)
                  else Some (''icons/'' @ icon_name))"

section \<open>ArtifactResolver\<close>

text \<open>Lines 129 to 146 of \<open>build_update_plans\<close>: the artifact for a declared basename,
  with the corrected \<open>Filename\<close> when it was found by its stem. \<open>Inr None\<close> is the
  \<open>continue\<close> of a missing artifact, \<open>Inl\<close> the exception of \<open>glob\<close>. \<open>sorted\<close>
  orders the candidates of one directory by their names, code point by code point.\<close>

definition resolve_artifact ::
  "filesystem \<Rightarrow> string \<Rightarrow> py_error + (string \<times> string option) option" where
  "resolve_artifact fs deb_name =
     (if deb_exists fs deb_name then Inr (Some (deb_name, None))
      else if endswith deb_name ''.deb'' then
        (let stem = take (length deb_name - 4) deb_name
         in case deb_glob fs (stem @ ''*.deb'') of
              Inl e \<Rightarrow> Inl e
            | Inr found \<Rightarrow>
                (case sort found of
                   [] \<Rightarrow> Inr None
                 | c # _ \<Rightarrow>
                     if deb_exists fs c then Inr (Some (c, Some (''./debs/'' @ c))) else Inr None))
      else Inr None)"

section \<open>HashComputer\<close>

text \<open>Lines 147 to 150: the size and the three digests of the resolved path, read in this
  order; the first call that raises ends the run.\<close>

definition read_artifact :: "filesystem \<Rightarrow> string \<Rightarrow> py_error + nat \<times> string \<times> string \<times> string" where
  "read_artifact fs name =
     (case deb_size fs name of
        Inl e \<Rightarrow> Inl e
      | Inr sz \<Rightarrow>
          (case deb_hash fs name ''md5'' of
             Inl e \<Rightarrow> Inl e
           | Inr m \<Rightarrow>
               (case deb_hash fs name ''sha1'' of
                  Inl e \<Rightarrow> Inl e
                | Inr s1 \<Rightarrow>
                    (case deb_hash fs name ''sha256'' of
                       Inl e \<Rightarrow> Inl e
                     | Inr s2 \<Rightarrow> Inr (sz, m, s1, s2)))))"

section \<open>Planner\<close>

text \<open>The allow-list test \<open>only and deb_name not in only\<close>.\<close>

definition excluded :: "string set option \<Rightarrow> string \<Rightarrow> bool" where
  "excluded only deb_name =
     (case only of None \<Rightarrow> False | Some names \<Rightarrow> names \<noteq> {} \<and> deb_name \<notin> names)"

text \<open>The body of the loop of \<open>build_update_plans\<close> for stanza \<open>i\<close>: \<open>Inr None\<close> is
  \<open>continue\<close>, \<open>Inr (Some plan)\<close> the plan appended, \<open>Inl\<close> an exception, which ends
  \<open>build_update_plans\<close>. (\<open>verbose\<close> only prints.)\<close>

definition plan_for ::
  "filesystem \<Rightarrow> string set option \<Rightarrow> bool \<Rightarrow> bool \<Rightarrow> string option \<Rightarrow> nat \<Rightarrow> string
     \<Rightarrow> py_error + update_plan option" where
  "plan_for fs only fix_metadata add_icons icon_url_prefix i stanza =
     (let lines = splitlines stanza;
          filename_field = map_option snd (get_field lines ''Filename'')
      in if \<not> truthy filename_field then Inr None
         else let deb_name = basename (the filename_field)
              in if excluded only deb_name then Inr None
                 else case resolve_artifact fs deb_name of
                        Inl e \<Rightarrow> Inl e
                      | Inr None \<Rightarrow> Inr None
                      | Inr (Some (actual_name, fix_fn)) \<Rightarrow>
                          (case read_artifact fs actual_name of
                             Inl e \<Rightarrow> Inl e
                           | Inr (sz, m, s1, s2) \<Rightarrow>
                          let parsed = (if fix_metadata then parse_deb_filename actual_name else None);
                              cur_pkg = map_option snd (get_field lines ''Package'');
                              cur_ver = map_option snd (get_field lines ''Version'');
                              cur_arch = map_option snd (get_field lines ''Architecture'');
                              pkg_id_val = (case parsed of Some (pkg, ver, arch) \<Rightarrow> Some pkg
                                            | None \<Rightarrow> cur_pkg)
                          in Inr (Some \<lparr>
                               stanza_index = i,
                               filename = actual_name,
                               size_bytes = sz,
                               md5 = m,
                               sha1 = s1,
                               sha256 = s2,
                               fix_pkg = (case parsed of Some (pkg, ver, arch) \<Rightarrow>
                                            if cur_pkg \<noteq> Some pkg then Some pkg else None
                                          | None \<Rightarrow> None),
                               fix_ver = (case parsed of Some (pkg, ver, arch) \<Rightarrow>
                                            if cur_ver \<noteq> Some ver then Some ver else None
                                          | None \<Rightarrow> None),
                               fix_arch = (case parsed of Some (pkg, ver, arch) \<Rightarrow>
                                            if cur_arch \<noteq> Some arch then Some arch else None
                                          | None \<Rightarrow> None),
                               fix_filename = fix_fn,
                               icon_url = (if add_icons
                                           then find_icon_for_package fs pkg_id_val icon_url_prefix
                                           else None) \<rparr>)))"

text \<open>The loop over the stanzas, from index \<open>i\<close> on: the plans in the order of the
  stanzas, or the first exception.\<close>

fun build_from ::
  "filesystem \<Rightarrow> string set option \<Rightarrow> bool \<Rightarrow> bool \<Rightarrow> string option \<Rightarrow> nat \<Rightarrow> string list
     \<Rightarrow> py_error + update_plan list" where
  "build_from fs only fix_metadata add_icons icon_url_prefix i [] = Inr []"
| "build_from fs only fix_metadata add_icons icon_url_prefix i (stanza # rest) =
     (case plan_for fs only fix_metadata add_icons icon_url_prefix i stanza of
        Inl e \<Rightarrow> Inl e
      | Inr p \<Rightarrow>
          (case build_from fs only fix_metadata add_icons icon_url_prefix (Suc i) rest of
             Inl e \<Rightarrow> Inl e
           | Inr plans \<Rightarrow> Inr (case p of None \<Rightarrow> plans | Some plan \<Rightarrow> plan # plans)))"

definition build_update_plans ::
  "filesystem \<Rightarrow> string list \<Rightarrow> string set option \<Rightarrow> bool \<Rightarrow> bool \<Rightarrow> string option
     \<Rightarrow> py_error + update_plan list" where
  "build_update_plans fs stanzas only fix_metadata add_icons icon_url_prefix =
     build_from fs only fix_metadata add_icons icon_url_prefix 0 stanzas"

section \<open>Applier\<close>

definition hash_keys :: "string list" where
  "hash_keys = [''Size'', ''MD5sum'', ''SHA1'', ''SHA256'']"

text \<open>\<open>if plan.fix: lines = set_field(lines, key, plan.fix)\<close>.\<close>

definition apply_fix :: "string list \<Rightarrow> string \<Rightarrow> string option \<Rightarrow> string list" where
  "apply_fix lines key fix = (if truthy fix then set_field lines key (the fix) else lines)"

text \<open>The lines of a stanza up to the metadata fixes, and the four lines appended.\<close>

definition fixed_lines :: "string list \<Rightarrow> update_plan \<Rightarrow> string list" where
  "fixed_lines lines plan =
     (let l0 = remove_fields lines hash_keys;
          l1 = apply_fix l0 ''Package'' (fix_pkg plan);
          l2 = apply_fix l1 ''Version'' (fix_ver plan);
          l3 = apply_fix l2 ''Architecture'' (fix_arch plan);
          l4 = apply_fix l3 ''Filename'' (fix_filename plan)
      in apply_fix l4 ''Icon'' (icon_url plan))"

definition hash_lines :: "update_plan \<Rightarrow> string list" where
  "hash_lines plan =
     [''Size: '' @ str_of_nat (size_bytes plan),
      ''MD5sum: '' @ md5 plan,
      ''SHA1: '' @ sha1 plan,
      ''SHA256: '' @ sha256 plan]"

definition apply_plan :: "string \<Rightarrow> update_plan \<Rightarrow> string" where
  "apply_plan stanza plan = join EOL (fixed_lines (splitlines stanza) plan @ hash_lines plan)"

text \<open>\<open>apply_plans\<close> updates the list in place, plan after plan; an index outside the
  list raises \<open>IndexError\<close>. (\<open>dry_run\<close> and \<open>verbose\<close> only print.)\<close>

fun apply_plans :: "string list \<Rightarrow> update_plan list \<Rightarrow> py_error + string list" where
  "apply_plans stanzas [] = Inr stanzas"
| "apply_plans stanzas (plan # plans) =
     (if stanza_index plan < length stanzas
      then apply_plans (stanzas[stanza_index plan := apply_plan (stanzas ! stanza_index plan) plan]) plans
      else Inl IndexError)"

section \<open>The specification's notions\<close>

text \<open>The basename a stanza declares: that of a non-empty \<open>Filename\<close> value.\<close>

definition declared_basename :: "string \<Rightarrow> string option" where
  "declared_basename stanza =
     (case get_field (splitlines stanza) ''Filename'' of
        None \<Rightarrow> None
      | Some (_, v) \<Rightarrow> if v = [] then None else Some (basename v))"

text \<open>The lexicographically first of a list of candidates.\<close>

definition lex_first :: "string list \<Rightarrow> string \<Rightarrow> bool" where
  "lex_first candidates c = (c \<in> set candidates \<and> (\<forall>d \<in> set candidates. c \<le> d))"







text \<open>A string of blanks (characters of \<open>\s\<close>).\<close>

definition spaces :: "string \<Rightarrow> bool" where
  "spaces s = (\<forall>c \<in> set s. isspace c)"

text \<open>The field name of a line: what stands before its first colon, trimmed. A line is a
  field \<open>key\<close> when that name is \<open>key\<close> up to the case of letters.\<close>

definition field_name :: "string \<Rightarrow> string option" where
  "field_name ln =
     (if CHR '':'' \<in> set ln then Some (strip (takeWhile (\<lambda>c. c \<noteq> CHR '':'') ln)) else None)"

definition is_field :: "string \<Rightarrow> string \<Rightarrow> bool" where
  "is_field key ln = (map_option lower (field_name ln) = Some (lower key))"

text \<open>The value \<open>get_field\<close> reports for a key.\<close>

definition field_value :: "string list \<Rightarrow> string \<Rightarrow> string option" where
  "field_value lines key = map_option snd (get_field lines key)"

text \<open>The first character of a line after its leading blanks, in lower case.\<close>

definition first_lower :: "string \<Rightarrow> char option" where
  "first_lower ln = (case lstrip ln of [] \<Rightarrow> None | x # _ \<Rightarrow> Some (lower_char x))"


text \<open>The fields a plan can correct, and the correction a plan carries for each.\<close>

definition fix_keys :: "string list" where
  "fix_keys = [''Package'', ''Version'', ''Architecture'', ''Filename'', ''Icon'']"

definition correction :: "update_plan \<Rightarrow> string \<Rightarrow> string option" where
  "correction plan key =
     (if key = ''Package'' then fix_pkg plan
      else if key = ''Version'' then fix_ver plan
      else if key = ''Architecture'' then fix_arch plan
      else if key = ''Filename'' then fix_filename plan
      else if key = ''Icon'' then icon_url plan
      else None)"

text \<open>A plan without its correction for a key.\<close>

definition drop_correction :: "string \<Rightarrow> update_plan \<Rightarrow> update_plan" where
  "drop_correction key plan =
     (if key = ''Package'' then plan\<lparr>fix_pkg := None\<rparr>
      else if key = ''Version'' then plan\<lparr>fix_ver := None\<rparr>
      else if key = ''Architecture'' then plan\<lparr>fix_arch := None\<rparr>
      else if key = ''Filename'' then plan\<lparr>fix_filename := None\<rparr>
      else if key = ''Icon'' then plan\<lparr>icon_url := None\<rparr>
      else plan)"

text \<open>What follows a line break (LF or CR LF) at the start of a string; a string that
  starts with two line breaks; a string that holds two line breaks in a row somewhere.\<close>

fun after_break :: "string \<Rightarrow> string option" where
  "after_break [] = None"
| "after_break [a] = (if a = LF then Some [] else None)"
| "after_break (a # b # t) =
     (if a = LF then Some (b # t) else if a = CR \<and> b = LF then Some t else None)"

definition two_breaks :: "string \<Rightarrow> bool" where
  "two_breaks s = (case after_break s of None \<Rightarrow> False | Some t \<Rightarrow> after_break t \<noteq> None)"

fun has_blank_run :: "string \<Rightarrow> bool" where
  "has_blank_run [] = False"
| "has_blank_run (a # s) = (two_breaks (a # s) \<or> has_blank_run s)"

text \<open>A trimmed, non-empty string.\<close>

definition trimmed :: "string \<Rightarrow> bool" where
  "trimmed x = (x \<noteq> [] \<and> \<not> isspace (hd x) \<and> \<not> isspace (last x))"


section \<open>An example index and directory\<close>

text \<open>Three stanzas: the artifact of the first exists, that of the second is missing, that
  of the third is found by its stem among two candidates the directory lists in reverse
  order.\<close>

definition example_fs :: filesystem where
  "example_fs =
     \<lparr> deb_exists = (\<lambda>n. n \<in> {''pkg1_1.0_arm.deb'', ''stem.b.deb'', ''stem.a.deb''}),
       deb_glob = (\<lambda>p. if p = ''stem*.deb'' then Inr [''stem.b.deb'', ''stem.a.deb''] else Inr []),
       deb_size = (\<lambda>n. Inr 12),
       deb_hash = (\<lambda>n algo. Inr (algo @ ''-'' @ n)),
       icons_dir_exists = False,
       icon_exists = (\<lambda>n. False) \<rparr>"

text \<open>A directory that holds the file \<open>stem.b.deb\<close> and a subdirectory named
  \<open>stem.a.deb\<close>; the empty name is the directory itself. Hashing a directory raises,
  and \<open>glob\<close> refuses the pattern \<open>x***.deb\<close>.\<close>

definition example_dir_fs :: filesystem where
  "example_dir_fs =
     \<lparr> deb_exists = (\<lambda>n. n \<in> {[], ''stem.a.deb'', ''stem.b.deb''}),
       deb_glob = (\<lambda>p. if p = ''x***.deb'' then Inl ValueError
                       else if p = ''stem*.deb'' then Inr [''stem.b.deb'', ''stem.a.deb'']
                       else Inr []),
       deb_size = (\<lambda>n. Inr 4096),
       deb_hash = (\<lambda>n algo. if n = ''stem.b.deb'' then Inr (algo @ ''-'' @ n)
                            else Inl IsADirectoryError),
       icons_dir_exists = False,
       icon_exists = (\<lambda>n. False) \<rparr>"


text \<open>A stanza with three old size and hash lines, and a plan for it.\<close>

definition example_plan :: update_plan where
  "example_plan =
     \<lparr> stanza_index = 0, filename = ''p_1_arm.deb'', size_bytes = 12,
       md5 = ''aa'', sha1 = ''bb'', sha256 = ''cc'',
       fix_pkg = Some ''p'', fix_ver = None, fix_arch = Some '''',
       fix_filename = None, icon_url = None \<rparr>"


text \<open>An index whose stanza declares a package and an old version; a stanza with an
  architecture; an index whose stanza is matched by its stem.\<close>

definition example_meta :: "string list" where
  "example_meta =
     [''Package: pkg1'' @ [LF] @ ''Version: 0.9'' @ [LF] @ ''Filename: pkg1_1.0_arm.deb'']"

definition example_arch_stanza :: string where
  "example_arch_stanza = ''Architecture: old'' @ [LF] @ ''Package: q''"

definition example_fuzzy :: "string list" where
  "example_fuzzy = [''Filename: debs/stem.deb'']"

text \<open>The plans the Planner returns for \<open>example_meta\<close> (metadata fixing on) and for
  \<open>example_fuzzy\<close> in \<open>example_fs\<close>.\<close>

definition example_meta_plan :: update_plan where
  "example_meta_plan =
     \<lparr> stanza_index = 0, filename = ''pkg1_1.0_arm.deb'', size_bytes = 12,
       md5 = ''md5-pkg1_1.0_arm.deb'', sha1 = ''sha1-pkg1_1.0_arm.deb'',
       sha256 = ''sha256-pkg1_1.0_arm.deb'', fix_pkg = None,
       fix_ver = Some ''1.0'', fix_arch = Some ''arm'', fix_filename = None,
       icon_url = None \<rparr>"

definition example_fuzzy_plan :: update_plan where
  "example_fuzzy_plan =
     \<lparr> stanza_index = 0, filename = ''stem.a.deb'', size_bytes = 12,
       md5 = ''md5-stem.a.deb'', sha1 = ''sha1-stem.a.deb'',
       sha256 = ''sha256-stem.a.deb'', fix_pkg = None, fix_ver = None,
       fix_arch = None, fix_filename = Some ''./debs/stem.a.deb'',
       icon_url = None \<rparr>"

text \<open>Two stanzas, the first with LF inside, the second with CR LF inside and blanks
  around it.\<close>

definition example_stanzas :: "string list" where
  "example_stanzas =
     [''Package: a'' @ [LF] @ ''Version: 1'',
      '' Package: b'' @ EOL @ ''Version: 2'' @ [LF]]"

section \<open>Properties of the string functions\<close>

lemma split_from_zero: "split_from c 0 cur s = [cur @ s]"
  by (cases s) simp_all

lemma split_from_absent: "c \<notin> set s \<Longrightarrow> split_from c n cur s = [cur @ s]"
proof (induction s arbitrary: cur)
  case Nil
  then show ?case by simp
next
  case (Cons x s)
  then show ?case by (cases n) auto
qed

lemma split_from_first:
  "c \<notin> set a \<Longrightarrow> split_from c (Suc n) cur (a @ c # s) = (cur @ a) # split_from c n [] s"
  by (induction a arbitrary: cur) auto

lemma split_from_hd: "hd (split_from c (Suc n) cur s) = cur @ takeWhile (\<lambda>x. x \<noteq> c) s"
  by (induction s arbitrary: cur) simp_all

lemma split_from_length:
  "length (split_from c n cur s) = Suc (min n (length (filter (\<lambda>x. x = c) s)))"
proof (induction s arbitrary: n cur)
  case Nil
  then show ?case by simp
next
  case (Cons x s)
  then show ?case by (cases n) simp_all
qed

lemma rsplit_three:
  assumes "c \<notin> set v" and "c \<notin> set a"
  shows "rsplit c 2 (p @ c # v @ c # a) = [p, v, a]"
proof -
  have "split c 2 (rev a @ c # rev v @ c # rev p) = [rev a, rev v, rev p]"
    using assms
    by (simp add: split_def numeral_2_eq_2 split_from_first split_from_zero)
  then show ?thesis
    by (simp add: rsplit_def)
qed

lemma rsplit_length:
  "length (rsplit c n s) = Suc (min n (length (filter (\<lambda>x. x = c) s)))"
  by (simp add: rsplit_def split_def split_from_length flip: rev_filter)

lemma endswith_append: "endswith (s @ p) p"
  by (simp add: endswith_def)

lemma three_cases:
  "(case xs of [pkg, ver, arch] \<Rightarrow> Some (f pkg ver arch) | _ \<Rightarrow> None) = None \<longleftrightarrow> length xs \<noteq> 3"
  by (auto split: list.splits)

section \<open>Filename derivation\<close>

text \<open>
  Claim C4. \<open>parse_deb_filename\<close> on a name ending in \<open>.deb\<close> cuts the name at its last
  two underscores, so the package keeps every earlier underscore; the version loses a
  leading \<open>v\<close> or \<open>V\<close> when something follows it; the architecture is cut at its
  first dot. The result is \<open>None\<close> exactly when the name does not end in \<open>.deb\<close> or has
  fewer than two underscores before the suffix. The two names of the specification give
  the triples it states.
\<close>

theorem parse_deb_filename_spec:
  "parse_deb_filename ''foo.bar_1.2.3-1_iphoneos-arm.deb'' = Some (''foo.bar'', ''1.2.3-1'', ''iphoneos-arm'')
   \<and> parse_deb_filename ''foo_v2.0_arm.extra.deb'' = Some (''foo'', ''2.0'', ''arm'')
   \<and> (\<forall>pkg ver arch.
         CHR ''_'' \<notin> set ver \<and> CHR ''_'' \<notin> set arch \<longrightarrow>
         parse_deb_filename (pkg @ ''_'' @ ver @ ''_'' @ arch @ ''.deb'') =
           Some (pkg,
                 (if (take 1 ver = ''v'' \<or> take 1 ver = ''V'') \<and> 1 < length ver then tl ver else ver),
                 takeWhile (\<lambda>c. c \<noteq> CHR ''.'') arch))
   \<and> (\<forall>name.
         parse_deb_filename name = None \<longleftrightarrow>
           \<not> endswith name ''.deb''
           \<or> length (filter (\<lambda>c. c = CHR ''_'') (take (length name - 4) name)) < 2)"
proof (intro conjI allI impI)
  show "parse_deb_filename ''foo.bar_1.2.3-1_iphoneos-arm.deb'' = Some (''foo.bar'', ''1.2.3-1'', ''iphoneos-arm'')"
    by code_simp
  show "parse_deb_filename ''foo_v2.0_arm.extra.deb'' = Some (''foo'', ''2.0'', ''arm'')"
    by code_simp
next
  fix pkg ver arch :: string
  assume h: "CHR ''_'' \<notin> set ver \<and> CHR ''_'' \<notin> set arch"
  let ?name = "pkg @ ''_'' @ ver @ ''_'' @ arch @ ''.deb''"
  have e: "endswith ?name ''.deb''"
    using endswith_append [of "pkg @ ''_'' @ ver @ ''_'' @ arch" "''.deb''"] by simp
  have b: "take (length ?name - 4) ?name = pkg @ CHR ''_'' # ver @ CHR ''_'' # arch"
    by simp
  have r: "rsplit (CHR ''_'') 2 (pkg @ CHR ''_'' # ver @ CHR ''_'' # arch) = [pkg, ver, arch]"
    using h by (simp add: rsplit_three)
  have a: "(if CHR ''.'' \<in> set arch then hd (split (CHR ''.'') 1 arch) else arch)
             = takeWhile (\<lambda>c. c \<noteq> CHR ''.'') arch"
  proof (cases "CHR ''.'' \<in> set arch")
    case True
    then show ?thesis by (simp add: split_def split_from_hd)
  next
    case False
    then have "takeWhile (\<lambda>c. c \<noteq> CHR ''.'') arch = arch"
      by (auto simp: takeWhile_eq_all_conv)
    from this [symmetric] False show ?thesis by (simp only: if_False)
  qed
  show "parse_deb_filename ?name =
          Some (pkg,
                (if (take 1 ver = ''v'' \<or> take 1 ver = ''V'') \<and> 1 < length ver then tl ver else ver),
                takeWhile (\<lambda>c. c \<noteq> CHR ''.'') arch)"
    unfolding parse_deb_filename_def Let_def b r using e a
    by (simp add: startswith_def drop_Suc)
next
  fix name :: string
  show "parse_deb_filename name = None \<longleftrightarrow>
           \<not> endswith name ''.deb''
           \<or> length (filter (\<lambda>c. c = CHR ''_'') (take (length name - 4) name)) < 2"
  proof (cases "endswith name ''.deb''")
    case False
    then show ?thesis by (simp add: parse_deb_filename_def)
  next
    case True
    have "parse_deb_filename name = None \<longleftrightarrow>
            length (rsplit (CHR ''_'') 2 (take (length name - 4) name)) \<noteq> 3"
      using True unfolding parse_deb_filename_def Let_def
      by (simp add: three_cases split: list.splits)
    then show ?thesis
      using True by (simp add: rsplit_length min_def) 
  qed
qed

theorem parse_deb_filename_spec_witness:
  "CHR ''_'' \<notin> set ''V1'' \<and> CHR ''_'' \<notin> set ''arm.x''
   \<and> parse_deb_filename ''a_b_V1_arm.x.deb'' = Some (''a_b'', ''1'', ''arm'')
   \<and> parse_deb_filename ''a_b.deb'' = None"
proof -
  have 1: "parse_deb_filename (''a_b'' @ ''_'' @ ''V1'' @ ''_'' @ ''arm.x'' @ ''.deb'')
             = Some (''a_b'', ''1'', ''arm'')"
    using parse_deb_filename_spec [THEN conjunct2, THEN conjunct2, THEN conjunct1, rule_format,
        of "''V1''" "''arm.x''" "''a_b''"]
    by simp
  have 2: "parse_deb_filename ''a_b.deb'' = None"
    using parse_deb_filename_spec [THEN conjunct2, THEN conjunct2, THEN conjunct2, rule_format,
        of "''a_b.deb''"]
    by (simp add: endswith_def)
  show ?thesis using 1 2 by simp
qed

section \<open>Planner and Applier\<close>

lemma hd_sort_first:
  fixes xs :: "string list"
  assumes "xs \<noteq> []"
  shows "lex_first xs (hd (sort xs))"
proof -
  from assms have ne: "sort xs \<noteq> []" by (metis length_0_conv length_sort)
  then obtain y ys where s: "sort xs = y # ys" by (cases "sort xs") auto
  have "sorted (y # ys)" using s by (metis sorted_sort)
  then have "\<forall>d \<in> set (y # ys). y \<le> d" by auto
  moreover have "set (y # ys) = set xs" using s by (metis set_sort)
  ultimately show ?thesis using s by (auto simp: lex_first_def)
qed



lemma resolve_artifact_cases:
  assumes "resolve_artifact fs name = Inr (Some (actual, ff))"
  shows "(ff = None \<and> actual = name \<and> deb_exists fs name)
         \<or> (ff = Some (''./debs/'' @ actual) \<and> \<not> deb_exists fs name \<and> endswith name ''.deb''
            \<and> (\<exists>found. deb_glob fs (take (length name - 4) name @ ''*.deb'') = Inr found
                  \<and> lex_first found actual \<and> deb_exists fs actual))"
proof (cases "deb_exists fs name")
  case True
  then show ?thesis using assms by (simp add: resolve_artifact_def)
next
  case False
  then have e: "endswith name ''.deb''"
    using assms by (auto simp: resolve_artifact_def split: if_splits)
  let ?p = "take (length name - 4) name @ ''*.deb''"
  obtain found where g: "deb_glob fs ?p = Inr found"
    using assms False e by (cases "deb_glob fs ?p") (auto simp: resolve_artifact_def)
  obtain c cs where s: "sort found = c # cs"
    using assms False e g by (cases "sort found") (auto simp: resolve_artifact_def)
  have r: "deb_exists fs c" "actual = c" "ff = Some (''./debs/'' @ c)"
    using assms False e g s by (auto simp: resolve_artifact_def split: if_splits)
  have "found \<noteq> []" using s by auto
  then have "lex_first found (hd (sort found))" by (rule hd_sort_first)
  then have "lex_first found c" using s by simp
  then show ?thesis using False e g r by auto
qed



lemma resolve_artifact_raises:
  "isl (resolve_artifact fs name) \<longleftrightarrow>
     \<not> deb_exists fs name \<and> endswith name ''.deb''
     \<and> isl (deb_glob fs (take (length name - 4) name @ ''*.deb''))"
  by (auto simp: resolve_artifact_def Let_def split: sum.splits list.splits)



text \<open>The loop body for a stanza that declares a basename the allow-list lets through:
  resolve, then read.\<close>

lemma plan_for_undeclared:
  "declared_basename stanza = None \<Longrightarrow> plan_for fs only fm ai pfx i stanza = Inr None"
  by (auto simp: plan_for_def declared_basename_def Let_def split: option.splits if_splits)

lemma plan_for_excluded:
  "declared_basename stanza = Some name \<Longrightarrow> excluded only name \<Longrightarrow>
     plan_for fs only fm ai pfx i stanza = Inr None"
  by (auto simp: plan_for_def declared_basename_def Let_def split: option.splits if_splits)

lemma plan_for_declared:
  assumes "declared_basename stanza = Some name" and "\<not> excluded only name"
  shows "isl (plan_for fs only fm ai pfx i stanza) \<longleftrightarrow>
           (case resolve_artifact fs name of
              Inl e \<Rightarrow> True
            | Inr None \<Rightarrow> False
            | Inr (Some (actual, ff)) \<Rightarrow> isl (read_artifact fs actual))"
    and "plan_for fs only fm ai pfx i stanza = Inr None \<longleftrightarrow> resolve_artifact fs name = Inr None"
    and "plan_for fs only fm ai pfx i stanza = Inr (Some plan) \<Longrightarrow>
           stanza_index plan = i
           \<and> resolve_artifact fs name = Inr (Some (filename plan, fix_filename plan))
           \<and> read_artifact fs (filename plan) = Inr (size_bytes plan, md5 plan, sha1 plan, sha256 plan)"
proof -
  obtain k v where g: "get_field (splitlines stanza) ''Filename'' = Some (k, v)"
    and v: "v \<noteq> []" "basename v = name"
    using assms(1) by (auto simp: declared_basename_def split: option.splits if_splits)
  have x: "\<not> excluded only (basename v)" using assms(2) v by simp
  show "isl (plan_for fs only fm ai pfx i stanza) \<longleftrightarrow>
           (case resolve_artifact fs name of
              Inl e \<Rightarrow> True
            | Inr None \<Rightarrow> False
            | Inr (Some (actual, ff)) \<Rightarrow> isl (read_artifact fs actual))"
    using g v x unfolding plan_for_def Let_def
    by (auto split: sum.splits option.splits prod.splits)
  show "plan_for fs only fm ai pfx i stanza = Inr None \<longleftrightarrow> resolve_artifact fs name = Inr None"
    using g v x unfolding plan_for_def Let_def
    by (auto split: sum.splits option.splits prod.splits)
  show "plan_for fs only fm ai pfx i stanza = Inr (Some plan) \<Longrightarrow>
           stanza_index plan = i
           \<and> resolve_artifact fs name = Inr (Some (filename plan, fix_filename plan))
           \<and> read_artifact fs (filename plan) = Inr (size_bytes plan, md5 plan, sha1 plan, sha256 plan)"
    using g v x unfolding plan_for_def Let_def
    by (auto split: sum.splits option.splits prod.splits)
qed

lemma plan_for_index:
  assumes "plan_for fs only fm ai pfx i stanza = Inr (Some plan)"
  shows "stanza_index plan = i"
proof (cases "declared_basename stanza")
  case None
  then show ?thesis using assms plan_for_undeclared [of stanza fs only fm ai pfx i] by simp
next
  case (Some name)
  show ?thesis
  proof (cases "excluded only name")
    case True
    then show ?thesis using assms Some plan_for_excluded [of stanza name only fs fm ai pfx i] by simp
  next
    case False
    then show ?thesis using plan_for_declared(3) [OF Some False assms] by simp
  qed
qed




lemma build_from_set:
  "build_from fs only fm ai pfx k stanzas = Inr plans \<Longrightarrow>
     plan \<in> set plans \<longleftrightarrow>
       (\<exists>j < length stanzas. plan_for fs only fm ai pfx (k + j) (stanzas ! j) = Inr (Some plan))"
proof (induction stanzas arbitrary: k plans)
  case Nil
  then show ?case by auto
next
  case (Cons st rest)
  have ex: "(\<exists>j < Suc n. P j) \<longleftrightarrow> P 0 \<or> (\<exists>j < n. P (Suc j))" for P n
    by (auto simp: less_Suc_eq_0_disj)
  obtain p ps where p: "plan_for fs only fm ai pfx k st = Inr p"
    and ps: "build_from fs only fm ai pfx (Suc k) rest = Inr ps"
    and pl: "plans = (case p of None \<Rightarrow> ps | Some q \<Rightarrow> q # ps)"
    using Cons.prems by (auto split: sum.splits)
  show ?case
    using Cons.IH [OF ps] p pl by (cases p) (auto simp: ex)
qed



lemma build_update_plans_index:
  "build_update_plans fs stanzas only fm ai pfx = Inr plans \<Longrightarrow> plan \<in> set plans \<Longrightarrow>
     stanza_index plan < length stanzas \<and>
     plan_for fs only fm ai pfx (stanza_index plan) (stanzas ! stanza_index plan) = Inr (Some plan)"
  by (auto simp: build_update_plans_def build_from_set dest: plan_for_index)















text \<open>
  \<open>build_update_plans\<close> handles no exception, so the choice of a candidate reaches a plan
  only if the run goes on: here \<open>stem.deb\<close> does not exist, the search finds the file
  \<open>stem.b.deb\<close> and a directory named \<open>stem.a.deb\<close>, the directory is chosen, and hashing
  it raises.
\<close>

lemma directory_candidate_raises:
  "\<not> deb_exists example_dir_fs ''stem.deb''
   \<and> deb_glob example_dir_fs ''stem*.deb'' = Inr [''stem.b.deb'', ''stem.a.deb'']
   \<and> resolve_artifact example_dir_fs ''stem.deb''
       = Inr (Some (''stem.a.deb'', Some ''./debs/stem.a.deb''))
   \<and> build_update_plans example_dir_fs [''Filename: stem.deb''] None False False None
       = Inl IsADirectoryError"
  unfolding example_dir_fs_def by code_simp





section \<open>What the patterns match\<close>

lemma ms_Seq_set: "set (ms (Seq a b) w s) = (\<Union>t \<in> set (ms a w s). set (ms b w t))"
  by simp

lemma ms_Eps_set: "set (ms Eps w s) = {s}"
  by simp

lemma ms_Star_unfold:
  "ms (Star a) w s =
     concat (map (\<lambda>t. if length t < length s then ms (Star a) w t else []) (ms a w s)) @ [s]"
  by simp

lemma ms_Atom_Cons: "ms (Atom c) w (x # t) = (if cmatch c x then [t] else [])"
  by simp

lemma ms_Atom_Nil: "ms (Atom c) w [] = []"
  by simp

lemma ms_Bol_start: "ms Bol w w = [w]"
  by simp

lemma ms_Eol: "ms Eol w t \<noteq> [] \<longleftrightarrow> t = [] \<or> t = [LF]"
  by simp

lemma ms_Opt: "ms (Opt a) w s = ms a w s @ [s]"
  by simp

declare ms.simps [simp del]

lemma ms_Star_Atom:
  "ms (Star (Atom c)) w s =
     (case s of [] \<Rightarrow> [[]]
      | x # t \<Rightarrow> if cmatch c x then ms (Star (Atom c)) w t @ [s] else [s])"
  by (cases s) (simp_all add: ms_Star_unfold [of _ _ "[]"] ms_Star_unfold [of _ _ "_ # _"]
      ms_Atom_Cons ms_Atom_Nil)

lemma ms_Star_Atom_set:
  "t \<in> set (ms (Star (Atom c)) w s) \<longleftrightarrow> (\<exists>u. s = u @ t \<and> (\<forall>x \<in> set u. cmatch c x))"
proof (induction s)
  case Nil
  show ?case by (subst ms_Star_Atom) auto
next
  case (Cons x s)
  show ?case
  proof (cases "cmatch c x")
    case True
    have "t \<in> set (ms (Star (Atom c)) w (x # s)) \<longleftrightarrow>
            t = x # s \<or> (\<exists>u. s = u @ t \<and> (\<forall>x \<in> set u. cmatch c x))"
      by (subst ms_Star_Atom) (auto simp: True Cons.IH)
    also have "\<dots> \<longleftrightarrow> (\<exists>u. x # s = u @ t \<and> (\<forall>x \<in> set u. cmatch c x))"
      using True by (auto simp: Cons_eq_append_conv)
    finally show ?thesis .
  next
    case False
    have "t \<in> set (ms (Star (Atom c)) w (x # s)) \<longleftrightarrow> t = x # s"
      by (subst ms_Star_Atom) (auto simp: False)
    also have "\<dots> \<longleftrightarrow> (\<exists>u. x # s = u @ t \<and> (\<forall>x \<in> set u. cmatch c x))"
      using False by (auto simp: Cons_eq_append_conv)
    finally show ?thesis .
  qed
qed

lemma ms_Atom_set: "t \<in> set (ms (Atom c) w s) \<longleftrightarrow> (\<exists>x. s = x # t \<and> cmatch c x)"
  by (cases s) (auto simp: ms_Atom_Cons ms_Atom_Nil)

lemma ms_Plus_Atom_set:
  "t \<in> set (ms (Plus (Atom c)) w s) \<longleftrightarrow>
     (\<exists>u. u \<noteq> [] \<and> s = u @ t \<and> (\<forall>x \<in> set u. cmatch c x))"
proof -
  have "t \<in> set (ms (Plus (Atom c)) w s) \<longleftrightarrow>
          (\<exists>x u. s = x # u @ t \<and> cmatch c x \<and> (\<forall>x \<in> set u. cmatch c x))"
  proof -
    have "t \<in> set (ms (Plus (Atom c)) w s) \<longleftrightarrow>
            (\<exists>t1. t1 \<in> set (ms (Atom c) w s) \<and> t \<in> set (ms (Star (Atom c)) w t1))"
      unfolding Plus_def ms_Seq_set by blast
    then show ?thesis
      unfolding ms_Atom_set ms_Star_Atom_set by blast 
  qed
  also have "\<dots> \<longleftrightarrow> (\<exists>u. u \<noteq> [] \<and> s = u @ t \<and> (\<forall>x \<in> set u. cmatch c x))"
  proof
    assume "\<exists>x u. s = x # u @ t \<and> cmatch c x \<and> (\<forall>x \<in> set u. cmatch c x)"
    then obtain x u where "s = (x # u) @ t" "\<forall>y \<in> set (x # u). cmatch c y" by auto
    then show "\<exists>u. u \<noteq> [] \<and> s = u @ t \<and> (\<forall>x \<in> set u. cmatch c x)" by blast
  next
    assume "\<exists>u. u \<noteq> [] \<and> s = u @ t \<and> (\<forall>x \<in> set u. cmatch c x)"
    then obtain u where u: "u \<noteq> []" "s = u @ t" "\<forall>x \<in> set u. cmatch c x" by blast
    then obtain x v where "u = x # v" by (cases u) auto
    with u show "\<exists>x u. s = x # u @ t \<and> cmatch c x \<and> (\<forall>x \<in> set u. cmatch c x)" by auto
  qed
  finally show ?thesis .
qed

lemma ms_literal_nocase_set:
  "t \<in> set (ms (literal_nocase key) w s) \<longleftrightarrow> (\<exists>k. s = k @ t \<and> lower k = lower key)"
proof (induction key arbitrary: s)
  case Nil
  then show ?case by (auto simp: lower_def ms_Eps_set)
next
  case (Cons c cs)
  have "t \<in> set (ms (literal_nocase (c # cs)) w s) \<longleftrightarrow>
          (\<exists>x k. s = x # k @ t \<and> lower_char x = lower_char c \<and> lower k = lower cs)"
    by (auto simp: ms_Seq_set ms_Atom_set Cons.IH)
  also have "\<dots> \<longleftrightarrow> (\<exists>k. s = k @ t \<and> lower k = lower (c # cs))"
  proof
    assume "\<exists>x k. s = x # k @ t \<and> lower_char x = lower_char c \<and> lower k = lower cs"
    then obtain x k where "s = (x # k) @ t" "lower (x # k) = lower (c # cs)"
      by (auto simp: lower_def)
    then show "\<exists>k. s = k @ t \<and> lower k = lower (c # cs)" by blast
  next
    assume "\<exists>k. s = k @ t \<and> lower k = lower (c # cs)"
    then obtain k where k: "s = k @ t" "lower k = lower (c # cs)" by blast
    then obtain x v where "k = x # v" by (cases k) (auto simp: lower_def)
    with k show "\<exists>x k. s = x # k @ t \<and> lower_char x = lower_char c \<and> lower k = lower cs"
      by (auto simp: lower_def)
  qed
  finally show ?case .
qed

text \<open>What \<open>^\s*KEY\s*:\s*\<close> can leave of a line.\<close>

lemma field_pre_set:
  "t \<in> set (ms (field_pre key) ln ln) \<longleftrightarrow>
     (\<exists>a k b c. ln = a @ k @ b @ CHR '':'' # c @ t \<and> spaces a \<and> lower k = lower key
        \<and> spaces b \<and> spaces c)"
  (is "?l \<longleftrightarrow> ?r")
proof
  assume ?l
  then obtain t1 t2 t3 t4 where
    1: "t1 \<in> set (ms (Star (Atom Space)) ln ln)" and
    2: "t2 \<in> set (ms (literal_nocase key) ln t1)" and
    3: "t3 \<in> set (ms (Star (Atom Space)) ln t2)" and
    4: "t4 \<in> set (ms (Atom (Lit (CHR '':''))) ln t3)" and
    5: "t \<in> set (ms (Star (Atom Space)) ln t4)"
    unfolding field_pre_def ms_Seq_set by (auto simp: ms_Bol_start)
  from 1 obtain a where a: "ln = a @ t1" "spaces a" by (auto simp: ms_Star_Atom_set spaces_def)
  from 2 obtain k where k: "t1 = k @ t2" "lower k = lower key" by (auto simp: ms_literal_nocase_set)
  from 3 obtain b where b: "t2 = b @ t3" "spaces b" by (auto simp: ms_Star_Atom_set spaces_def)
  from 4 have c: "t3 = CHR '':'' # t4" by (auto simp: ms_Atom_set)
  from 5 obtain c where d: "t4 = c @ t" "spaces c" by (auto simp: ms_Star_Atom_set spaces_def)
  show ?r using a k b c d by auto
next
  assume ?r
  then obtain a k b c where
    d: "ln = a @ k @ b @ CHR '':'' # c @ t" "spaces a" "lower k = lower key" "spaces b" "spaces c"
    by blast
  have 1: "k @ b @ CHR '':'' # c @ t \<in> set (ms (Star (Atom Space)) ln ln)"
    using d by (auto simp: ms_Star_Atom_set spaces_def)
  have 2: "b @ CHR '':'' # c @ t \<in> set (ms (literal_nocase key) ln (k @ b @ CHR '':'' # c @ t))"
    using d by (auto simp: ms_literal_nocase_set)
  have 3: "CHR '':'' # c @ t \<in> set (ms (Star (Atom Space)) ln (b @ CHR '':'' # c @ t))"
    using d by (auto simp: ms_Star_Atom_set spaces_def)
  have 4: "c @ t \<in> set (ms (Atom (Lit (CHR '':''))) ln (CHR '':'' # c @ t))"
    by (auto simp: ms_Atom_set)
  have 5: "t \<in> set (ms (Star (Atom Space)) ln (c @ t))"
    using d by (auto simp: ms_Star_Atom_set spaces_def)
  show ?l
    unfolding field_pre_def ms_Seq_set using 1 2 3 4 5 by (auto simp: ms_Bol_start)
qed

lemma captures_set:
  "g \<in> set (captures pre grp post s) \<longleftrightarrow>
     (\<exists>t1 \<in> set (ms pre s s). \<exists>t2 \<in> set (ms grp s t1).
        ms post s t2 \<noteq> [] \<and> g = take (length t1 - length t2) t1)"
  by (auto simp: captures_def)

lemma match_group_None: "match_group pre grp post s = None \<longleftrightarrow> captures pre grp post s = []"
  by (simp add: match_group_def split: list.splits)

lemma match_group_Some: "match_group pre grp post s = Some g \<Longrightarrow> g \<in> set (captures pre grp post s)"
  by (auto simp: match_group_def split: list.splits)

text \<open>The captures of \<open>^\s*KEY\s*:\s*(.+)$\<close>.\<close>

lemma field_captures:
  "g \<in> set (captures (field_pre key) (Plus (Atom Dot)) Eol ln) \<longleftrightarrow>
     (\<exists>a k b c r. ln = a @ k @ b @ CHR '':'' # c @ g @ r \<and> spaces a \<and> lower k = lower key
        \<and> spaces b \<and> spaces c \<and> g \<noteq> [] \<and> LF \<notin> set g \<and> (r = [] \<or> r = [LF]))"
  (is "?l \<longleftrightarrow> ?r")
proof
  assume ?l
  then obtain t1 t2 where
    1: "t1 \<in> set (ms (field_pre key) ln ln)" and
    2: "t2 \<in> set (ms (Plus (Atom Dot)) ln t1)" and
    3: "ms Eol ln t2 \<noteq> []" and g: "g = take (length t1 - length t2) t1"
    unfolding captures_set by blast
  from 2 obtain u where u: "u \<noteq> []" "t1 = u @ t2" "\<forall>x \<in> set u. x \<noteq> LF"
    by (auto simp: ms_Plus_Atom_set)
  have gu: "g = u" using g u by simp
  from 1 obtain a k b c where
    p: "ln = a @ k @ b @ CHR '':'' # c @ t1" "spaces a" "lower k = lower key" "spaces b" "spaces c"
    unfolding field_pre_set by blast
  have e: "t2 = [] \<or> t2 = [LF]" using 3 unfolding ms_Eol .
  have "ln = a @ k @ b @ CHR '':'' # c @ g @ t2 \<and> spaces a \<and> lower k = lower key
        \<and> spaces b \<and> spaces c \<and> g \<noteq> [] \<and> LF \<notin> set g \<and> (t2 = [] \<or> t2 = [LF])"
    using p u gu e by auto
  then show ?r by blast
next
  assume ?r
  then obtain a k b c r where
    d: "ln = a @ k @ b @ CHR '':'' # c @ g @ r" "spaces a" "lower k = lower key"
       "spaces b" "spaces c" "g \<noteq> []" "LF \<notin> set g" "r = [] \<or> r = [LF]"
    by blast
  have 1: "g @ r \<in> set (ms (field_pre key) ln ln)"
    unfolding field_pre_set using d by blast
  have 2: "r \<in> set (ms (Plus (Atom Dot)) ln (g @ r))"
    unfolding ms_Plus_Atom_set using d by auto
  have 3: "ms Eol ln r \<noteq> []" unfolding ms_Eol using d by simp
  have 4: "g = take (length (g @ r) - length r) (g @ r)" by simp
  show ?l unfolding captures_set using 1 2 3 4 by blast
qed

section \<open>Field names\<close>

lemma spaces_simps [simp]:
  "spaces []" "spaces (x # s) \<longleftrightarrow> isspace x \<and> spaces s" "spaces (s @ t) \<longleftrightarrow> spaces s \<and> spaces t"
  by (auto simp: spaces_def)

lemma lstrip_spaces: "spaces a \<Longrightarrow> lstrip (a @ s) = lstrip s"
  by (induction a) (simp_all add: lstrip_def)

lemma rstrip_spaces: "spaces b \<Longrightarrow> rstrip (s @ b) = rstrip s"
proof -
  assume "spaces b"
  then have "spaces (rev b)" by (simp add: spaces_def)
  then have "lstrip (rev b @ rev s) = lstrip (rev s)" by (rule lstrip_spaces)
  then show ?thesis by (simp add: rstrip_def lstrip_def)
qed

lemma lstrip_all: "spaces s \<Longrightarrow> lstrip s = []"
  using lstrip_spaces [of s "[]"] by (simp add: lstrip_def)

lemma lstrip_append: "\<not> spaces s \<Longrightarrow> lstrip (s @ b) = lstrip s @ b"
  by (induction s) (simp_all add: lstrip_def)

lemma strip_all: "spaces s \<Longrightarrow> strip s = []"
  by (simp add: strip_def lstrip_all rstrip_def)

lemma strip_spaces: "spaces a \<Longrightarrow> spaces b \<Longrightarrow> strip (a @ s @ b) = strip s"
proof (cases "spaces s")
  case True
  assume "spaces a" "spaces b"
  then have "spaces (a @ s @ b)" using True by simp
  then show ?thesis using True by (simp only: strip_all)
next
  case False
  assume a: "spaces a" and b: "spaces b"
  have "lstrip (a @ s @ b) = lstrip s @ b"
    using a False by (simp add: lstrip_spaces lstrip_append)
  then show ?thesis using b by (simp add: strip_def rstrip_spaces)
qed

text \<open>The captures of \<open>^\s*([^:]+)\s*:\s*\<close>.\<close>

lemma name_post:
  "ms (Seq (Star (Atom Space)) (Seq (Atom (Lit (CHR '':''))) (Star (Atom Space)))) w t \<noteq> [] \<longleftrightarrow>
     (\<exists>b r. t = b @ CHR '':'' # r \<and> spaces b)"
  (is "?m \<noteq> [] \<longleftrightarrow> ?r")
proof -
  have "?m \<noteq> [] \<longleftrightarrow> (\<exists>x. x \<in> set ?m)" by (cases ?m) auto
  also have "\<dots> \<longleftrightarrow> (\<exists>x t1 t2. t1 \<in> set (ms (Star (Atom Space)) w t) \<and>
       t2 \<in> set (ms (Atom (Lit (CHR '':''))) w t1) \<and> x \<in> set (ms (Star (Atom Space)) w t2))"
    unfolding ms_Seq_set by blast
  also have "\<dots> \<longleftrightarrow> (\<exists>t1 t2. t1 \<in> set (ms (Star (Atom Space)) w t) \<and>
       t2 \<in> set (ms (Atom (Lit (CHR '':''))) w t1))"
  proof -
    have "\<exists>x. x \<in> set (ms (Star (Atom Space)) w t2)" for t2
      unfolding ms_Star_Atom_set by (intro exI [of _ t2] exI [of _ "[]"]) simp
    then show ?thesis by blast
  qed
  also have "\<dots> \<longleftrightarrow> ?r"
    unfolding ms_Star_Atom_set ms_Atom_set by (auto simp: spaces_def)
  finally show ?thesis .
qed

lemma name_captures:
  "g \<in> set (captures (Seq Bol (Star (Atom Space))) (Plus (Atom (NotLit (CHR '':''))))
               (Seq (Star (Atom Space)) (Seq (Atom (Lit (CHR '':''))) (Star (Atom Space)))) ln) \<longleftrightarrow>
     (\<exists>a b r. ln = a @ g @ b @ CHR '':'' # r \<and> spaces a \<and> spaces b \<and> g \<noteq> []
        \<and> CHR '':'' \<notin> set g)"
  (is "?l \<longleftrightarrow> ?r")
proof
  assume ?l
  then obtain t1 t2 where
    1: "t1 \<in> set (ms (Seq Bol (Star (Atom Space))) ln ln)" and
    2: "t2 \<in> set (ms (Plus (Atom (NotLit (CHR '':'')))) ln t1)" and
    3: "ms (Seq (Star (Atom Space)) (Seq (Atom (Lit (CHR '':''))) (Star (Atom Space)))) ln t2 \<noteq> []"
    and g: "g = take (length t1 - length t2) t1"
    unfolding captures_set by blast
  from 1 obtain a where a: "ln = a @ t1" "spaces a"
    unfolding ms_Seq_set by (auto simp: ms_Bol_start ms_Star_Atom_set spaces_def)
  from 2 obtain u where u: "u \<noteq> []" "t1 = u @ t2" "CHR '':'' \<notin> set u"
    by (auto simp: ms_Plus_Atom_set)
  from 3 obtain b r where b: "t2 = b @ CHR '':'' # r" "spaces b"
    unfolding name_post by blast
  have "g = u" using g u by simp
  then have "ln = a @ g @ b @ CHR '':'' # r \<and> spaces a \<and> spaces b \<and> g \<noteq> [] \<and> CHR '':'' \<notin> set g"
    using a u b by simp
  then show ?r by blast
next
  assume ?r
  then obtain a b r where
    d: "ln = a @ g @ b @ CHR '':'' # r" "spaces a" "spaces b" "g \<noteq> []" "CHR '':'' \<notin> set g"
    by blast
  have 1: "g @ b @ CHR '':'' # r \<in> set (ms (Seq Bol (Star (Atom Space))) ln ln)"
    unfolding ms_Seq_set using d by (auto simp: ms_Bol_start ms_Star_Atom_set spaces_def)
  have 2: "b @ CHR '':'' # r \<in> set (ms (Plus (Atom (NotLit (CHR '':'')))) ln (g @ b @ CHR '':'' # r))"
    unfolding ms_Plus_Atom_set using d by auto
  have 3: "ms (Seq (Star (Atom Space)) (Seq (Atom (Lit (CHR '':''))) (Star (Atom Space)))) ln
             (b @ CHR '':'' # r) \<noteq> []"
    unfolding name_post using d by blast
  have 4: "g = take (length (g @ b @ CHR '':'' # r) - length (b @ CHR '':'' # r)) (g @ b @ CHR '':'' # r)"
    by simp
  show ?l unfolding captures_set using 1 2 3 4 by blast
qed

lemma not_colon_space: "isspace c \<Longrightarrow> c \<noteq> CHR '':''"
  by (auto simp: isspace_def)

lemma spaces_no_colon: "spaces a \<Longrightarrow> CHR '':'' \<notin> set a"
  by (auto simp: spaces_def dest: not_colon_space)

lemma takeWhile_upto:
  "c \<notin> set p \<Longrightarrow> takeWhile (\<lambda>x. x \<noteq> c) (p @ c # r) = p"
  by (induction p) auto

lemma name_match_name:
  assumes "name_match ln = Some g"
  shows "field_name ln = Some (strip g) \<and> ln \<noteq> [] \<and> hd ln \<noteq> CHR '':''"
proof -
  have "g \<in> set (captures (Seq Bol (Star (Atom Space))) (Plus (Atom (NotLit (CHR '':''))))
               (Seq (Star (Atom Space)) (Seq (Atom (Lit (CHR '':''))) (Star (Atom Space)))) ln)"
    using assms unfolding name_match_def by (rule match_group_Some)
  then obtain a b r where
    d: "ln = a @ g @ b @ CHR '':'' # r" "spaces a" "spaces b" "g \<noteq> []" "CHR '':'' \<notin> set g"
    unfolding name_captures by blast
  have n: "CHR '':'' \<notin> set (a @ g @ b)" using d by (simp add: spaces_no_colon)
  have "takeWhile (\<lambda>c. c \<noteq> CHR '':'') ((a @ g @ b) @ CHR '':'' # r) = a @ g @ b"
    using n by (rule takeWhile_upto)
  then have "field_name ln = Some (strip (a @ g @ b))"
    using d(1) by (simp add: field_name_def)
  moreover have "hd ln \<noteq> CHR '':''" using d n by (cases a; cases g) auto
  ultimately show ?thesis using d by (simp add: strip_spaces)
qed

lemma name_match_None:
  assumes "name_match ln = None"
  shows "CHR '':'' \<notin> set ln \<or> hd ln = CHR '':''"
proof (rule ccontr)
  assume "\<not> ?thesis"
  then have c: "CHR '':'' \<in> set ln" and h: "hd ln \<noteq> CHR '':''" by auto
  let ?p = "takeWhile (\<lambda>c. c \<noteq> CHR '':'') ln"
  have ne: "dropWhile (\<lambda>c. c \<noteq> CHR '':'') ln \<noteq> []"
    using c by (auto simp: dropWhile_eq_Nil_conv)
  then have "hd (dropWhile (\<lambda>c. c \<noteq> CHR '':'') ln) = CHR '':''"
    using hd_dropWhile [of "\<lambda>c. c \<noteq> CHR '':''" ln] by simp
  then obtain r where r: "dropWhile (\<lambda>c. c \<noteq> CHR '':'') ln = CHR '':'' # r"
    using ne by (cases "dropWhile (\<lambda>c. c \<noteq> CHR '':'') ln") auto
  have ln: "ln = [] @ ?p @ [] @ CHR '':'' # r"
    using r takeWhile_dropWhile_id [of "\<lambda>c. c \<noteq> CHR '':''" ln] by simp
  have p: "?p \<noteq> []" using h c by (cases ln) auto
  have q: "CHR '':'' \<notin> set ?p" by (auto dest: set_takeWhileD)
  have "?p \<in> set (captures (Seq Bol (Star (Atom Space))) (Plus (Atom (NotLit (CHR '':''))))
               (Seq (Star (Atom Space)) (Seq (Atom (Lit (CHR '':''))) (Star (Atom Space)))) ln)"
    unfolding name_captures using ln p q spaces_simps(1) by blast
  then show False
    using assms unfolding name_match_def match_group_None by simp
qed

lemma removed_iff:
  assumes "[] \<notin> set keys"
  shows "removed keys ln \<longleftrightarrow> (\<exists>k \<in> set keys. is_field k ln)"
proof (cases "name_match ln")
  case None
  then have "CHR '':'' \<notin> set ln \<or> hd ln = CHR '':''" by (rule name_match_None)
  then have "field_name ln = None \<or> field_name ln = Some []"
  proof
    assume "CHR '':'' \<notin> set ln"
    then show ?thesis by (simp add: field_name_def)
  next
    assume h: "hd ln = CHR '':''"
    show ?thesis
    proof (cases "CHR '':'' \<in> set ln")
      case True
      then have "takeWhile (\<lambda>c. c \<noteq> CHR '':'') ln = []" using h by (cases ln) auto
      then show ?thesis using True by (simp add: field_name_def strip_all)
    next
      case False
      then show ?thesis by (simp add: field_name_def)
    qed
  qed
  moreover have "lower k \<noteq> []" if "k \<in> set keys" for k
    using that assms by (auto simp: lower_def)
  ultimately have "\<not> (\<exists>k \<in> set keys. is_field k ln)"
    by (auto simp: is_field_def lower_def)
  then show ?thesis using None by (simp add: removed_def)
next
  case (Some g)
  then have "field_name ln = Some (strip g)" using name_match_name by blast
  then show ?thesis using Some by (auto simp: removed_def is_field_def)
qed

section \<open>Size and hash lines\<close>




lemma strip_plain: "s \<noteq> [] \<Longrightarrow> \<not> isspace (hd s) \<Longrightarrow> \<not> isspace (last s) \<Longrightarrow> strip s = s"
proof -
  assume s: "s \<noteq> []" and h: "\<not> isspace (hd s)" and l: "\<not> isspace (last s)"
  have 1: "lstrip s = s" using s h by (cases s) (simp_all add: lstrip_def)
  have "dropWhile isspace (rev s) = rev s"
    using s l by (cases "rev s") (auto simp: last_rev [symmetric] simp del: last_rev)
  then show ?thesis using 1 by (simp add: strip_def rstrip_def)
qed








section \<open>Lines with an empty value\<close>

lemma lower_char_space: "isspace x \<Longrightarrow> lower_char x = x"
  by (auto simp: isspace_def lower_char_def)












section \<open>Fields a plan does not correct\<close>

lemma field_match_Some_captures:
  "field_match key ln = Some g \<Longrightarrow> g \<in> set (captures (field_pre key) (Plus (Atom Dot)) Eol ln)"
  unfolding field_match_def by (rule match_group_Some)

lemma field_match_first:
  assumes "field_match (c0 # cs) ln = Some g" and "\<not> isspace (lower_char c0)"
  shows "first_lower ln = Some (lower_char c0)"
proof -
  obtain a k b c r where
    d: "ln = a @ k @ b @ CHR '':'' # c @ g @ r" "spaces a" "lower k = lower (c0 # cs)"
    using field_match_Some_captures [OF assms(1)] unfolding field_captures by blast
  then obtain x k' where k: "k = x # k'" "lower_char x = lower_char c0"
    by (cases k) (auto simp: lower_def)
  have "\<not> isspace x"
    using k(2) assms(2) lower_char_space [of x] by auto
  then have "lstrip ln = x # k' @ b @ CHR '':'' # c @ g @ r"
    using d k by (simp add: lstrip_spaces) (simp add: lstrip_def)
  then show ?thesis using k by (simp add: first_lower_def)
qed

lemma rstrip_prefix: "\<exists>t. s = rstrip s @ t"
proof -
  have "rstrip s @ rev (takeWhile isspace (rev s))
          = rev (takeWhile isspace (rev s) @ dropWhile isspace (rev s))"
    by (simp only: rstrip_def rev_append)
  also have "\<dots> = rev (rev s)" by (simp only: takeWhile_dropWhile_id)
  finally have "s = rstrip s @ rev (takeWhile isspace (rev s))" by simp
  then show ?thesis by blast
qed

lemma lstrip_Nil_spaces: "lstrip s = [] \<Longrightarrow> spaces s"
  by (auto simp: lstrip_def spaces_def dropWhile_eq_Nil_conv)

lemma is_field_first:
  assumes "is_field k ln" and "k \<noteq> []"
  shows "first_lower ln = Some (lower_char (hd k))"
proof -
  let ?p = "takeWhile (\<lambda>c. c \<noteq> CHR '':'') ln"
  have n: "lower (strip ?p) = lower k"
    using assms(1) by (auto simp: is_field_def field_name_def split: if_splits)
  then have ne: "strip ?p \<noteq> []" using assms(2) by (auto simp: lower_def)
  obtain t where t: "lstrip ?p = strip ?p @ t"
    using rstrip_prefix [of "lstrip ?p"] by (auto simp: strip_def)
  have l: "lstrip ?p \<noteq> []" using ne t by auto
  then have "\<not> spaces ?p" using lstrip_all by blast
  then have "lstrip (?p @ dropWhile (\<lambda>c. c \<noteq> CHR '':'') ln)
               = lstrip ?p @ dropWhile (\<lambda>c. c \<noteq> CHR '':'') ln"
    by (rule lstrip_append)
  then have "lstrip ln = strip ?p @ t @ dropWhile (\<lambda>c. c \<noteq> CHR '':'') ln"
    using t by simp
  then have "first_lower ln = Some (lower_char (hd (strip ?p)))"
    using ne by (cases "strip ?p") (simp_all add: first_lower_def)
  also have "lower_char (hd (strip ?p)) = hd (lower (strip ?p))"
    using ne by (simp add: lower_def hd_map)
  also have "\<dots> = lower_char (hd k)"
    using n assms(2) by (simp add: lower_def hd_map)
  finally show ?thesis .
qed

lemma first_lower_plain: "\<not> isspace c \<Longrightarrow> first_lower (c # s) = Some (lower_char c)"
  by (simp add: first_lower_def lstrip_def)

lemma fix_keys_first: "map (\<lambda>k. lower_char (hd k)) fix_keys = ''pvafi''"
  unfolding fix_keys_def by code_simp

lemma hash_keys_first: "map (\<lambda>k. lower_char (hd k)) hash_keys = ''smss''"
  unfolding hash_keys_def by code_simp

lemma fix_key_first:
  assumes "key \<in> set fix_keys"
  shows "key \<noteq> []" and "\<not> isspace (hd key)" and "\<not> isspace (lower_char (hd key))"
    and "lower_char (hd key) \<in> set ''pvafi''"
proof -
  show "key \<noteq> []" "\<not> isspace (hd key)"
    using assms by (auto simp: fix_keys_def isspace_def)
  have "lower_char (hd key) \<in> set (map (\<lambda>k. lower_char (hd k)) fix_keys)"
    using assms by simp
  then show m: "lower_char (hd key) \<in> set ''pvafi''"
    unfolding fix_keys_first .
  then show "\<not> isspace (lower_char (hd key))"
    by (auto simp: isspace_def)
qed

lemma fix_keys_distinct_first:
  assumes "key \<in> set fix_keys" and "key' \<in> set fix_keys" and "key \<noteq> key'"
  shows "lower_char (hd key) \<noteq> lower_char (hd key')"
proof -
  have d: "distinct (map (\<lambda>k. lower_char (hd k)) fix_keys)"
    unfolding fix_keys_first by simp
  then have "inj_on (\<lambda>k. lower_char (hd k)) (set fix_keys)"
    by (simp add: distinct_map)
  then show ?thesis using assms by (auto dest: inj_onD)
qed

lemma field_match_needs_first:
  assumes "key \<in> set fix_keys" and "first_lower ln \<noteq> Some (lower_char (hd key))"
  shows "field_match key ln = None"
proof (rule ccontr)
  assume "field_match key ln \<noteq> None"
  then obtain g where g: "field_match key ln = Some g" by auto
  obtain c0 cs where k: "key = c0 # cs" using fix_key_first(1) [OF assms(1)] by (cases key) auto
  have "first_lower ln = Some (lower_char c0)"
    using g fix_key_first(3) [OF assms(1)] unfolding k by (auto intro: field_match_first)
  then show False using assms(2) k by simp
qed

lemma hash_field_unmatched:
  assumes "key \<in> set fix_keys" and "k \<in> set hash_keys" and "is_field k ln"
  shows "field_match key ln = None"
proof -
  have "k \<noteq> []" using assms(2) by (auto simp: hash_keys_def)
  then have f: "first_lower ln = Some (lower_char (hd k))" using assms(3) is_field_first by blast
  have "lower_char (hd k) \<in> set (map (\<lambda>k. lower_char (hd k)) hash_keys)"
    using assms(2) by simp
  then have "lower_char (hd k) \<in> set ''smss''" unfolding hash_keys_first .
  then have "lower_char (hd k) \<noteq> lower_char (hd key)"
    using fix_key_first(4) [OF assms(1)] by auto
  then show ?thesis using f assms(1) by (intro field_match_needs_first) auto
qed

lemma other_key_unmatched:
  assumes "key \<in> set fix_keys" and "key' \<in> set fix_keys" and "key \<noteq> key'"
    and "field_match key' ln \<noteq> None"
  shows "field_match key ln = None"
proof -
  obtain g where g: "field_match key' ln = Some g" using assms(4) by auto
  obtain c0 cs where k: "key' = c0 # cs" using fix_key_first(1) [OF assms(2)] by (cases key') auto
  have "first_lower ln = Some (lower_char (hd key'))"
    using g fix_key_first(3) [OF assms(2)] unfolding k by (auto intro: field_match_first)
  then show ?thesis
    using fix_keys_distinct_first [OF assms(1-3)] assms(1) by (intro field_match_needs_first) auto
qed

lemma other_key_line_unmatched:
  assumes "key \<in> set fix_keys" and "key' \<in> set fix_keys" and "key \<noteq> key'"
  shows "field_match key (key' @ '': '' @ v) = None"
proof -
  obtain c0 cs where k: "key' = c0 # cs" using fix_key_first(1) [OF assms(2)] by (cases key') auto
  have "first_lower (key' @ '': '' @ v) = Some (lower_char (hd key'))"
    using fix_key_first(2) [OF assms(2)] unfolding k by (simp add: first_lower_plain)
  then show ?thesis
    using fix_keys_distinct_first [OF assms(1-3)] assms(1) by (intro field_match_needs_first) auto
qed

lemma hash_line_unmatched:
  assumes "key \<in> set fix_keys" and "l \<in> set (hash_lines plan)"
  shows "field_match key l = None"
proof -
  have "first_lower l \<in> {Some (CHR ''s''), Some (CHR ''m'')}"
  proof -
    have s: "lower_char (CHR ''S'') = CHR ''s''" "lower_char (CHR ''M'') = CHR ''m''"
      by code_simp+
    have i: "\<not> isspace (CHR ''S'')" "\<not> isspace (CHR ''M'')" by (simp_all add: isspace_def)
    show ?thesis
      using assms(2) first_lower_plain [OF i(1)] first_lower_plain [OF i(2)] s
      by (auto simp: hash_lines_def)
  qed
  then have "first_lower l \<noteq> Some (lower_char (hd key))"
    using fix_key_first(4) [OF assms(1)] by auto
  then show ?thesis using assms(1) by (rule field_match_needs_first [rotated])
qed

lemma get_field_from_shift:
  "map_option snd (get_field_from i ls key) = map_option snd (get_field_from j ls key)"
proof (induction ls arbitrary: i j)
  case Nil
  then show ?case by simp
next
  case (Cons l ls)
  show ?case using Cons.IH [of "Suc i" "Suc j"] by (simp split: option.splits)
qed

lemma field_value_Nil: "field_value [] key = None"
  by (simp add: field_value_def get_field_def)

lemma field_value_Cons:
  "field_value (l # ls) key =
     (case field_match key l of Some g \<Rightarrow> Some (strip g) | None \<Rightarrow> field_value ls key)"
  using get_field_from_shift [of "Suc 0" ls key 0]
  by (simp add: field_value_def get_field_def split: option.splits)

lemma field_value_unmatched:
  "\<forall>l \<in> set ls. field_match key l = None \<Longrightarrow> field_value ls key = None"
  by (induction ls) (simp_all add: field_value_Nil field_value_Cons)

lemma field_value_append:
  "\<forall>l \<in> set extra. field_match key l = None \<Longrightarrow> field_value (ls @ extra) key = field_value ls key"
  by (induction ls) (simp_all add: field_value_Nil field_value_Cons field_value_unmatched split: option.splits)

lemma field_value_filter:
  "\<forall>l \<in> set ls. \<not> P l \<longrightarrow> field_match key l = None \<Longrightarrow>
     field_value (filter P ls) key = field_value ls key"
  by (induction ls) (simp_all add: field_value_Nil field_value_Cons split: option.splits)

lemma field_value_update:
  "i < length ls \<Longrightarrow> field_match key (ls ! i) = None \<Longrightarrow> field_match key new = None \<Longrightarrow>
     field_value (ls[i := new]) key = field_value ls key"
proof (induction ls arbitrary: i)
  case Nil
  then show ?case by simp
next
  case (Cons l ls)
  then show ?case by (cases i) (simp_all add: field_value_Cons split: option.splits)
qed

lemma get_field_from_Some:
  "get_field_from j ls key = Some (i, v) \<Longrightarrow>
     j \<le> i \<and> i - j < length ls \<and> field_match key (ls ! (i - j)) \<noteq> None"
proof (induction ls arbitrary: j)
  case Nil
  then show ?case by simp
next
  case (Cons l ls)
  show ?case
  proof (cases "field_match key l")
    case None
    then have "get_field_from (Suc j) ls key = Some (i, v)" using Cons.prems by simp
    from Cons.IH [OF this] have
      h: "Suc j \<le> i" "i - Suc j < length ls" "field_match key (ls ! (i - Suc j)) \<noteq> None"
      by auto
    then have "i - j = Suc (i - Suc j)" by simp
    then show ?thesis using h by simp
  next
    case (Some g)
    then show ?thesis using Cons.prems by auto
  qed
qed

lemma get_field_Some:
  "get_field ls key = Some (i, v) \<Longrightarrow> i < length ls \<and> field_match key (ls ! i) \<noteq> None"
  using get_field_from_Some [of 0 ls key i v] by (simp add: get_field_def)

lemma set_field_other:
  assumes "key \<in> set fix_keys" and "key' \<in> set fix_keys" and "key \<noteq> key'"
  shows "field_value (set_field ls key' v) key = field_value ls key"
proof (cases "get_field ls key'")
  case None
  then show ?thesis
    using other_key_line_unmatched [OF assms, of v]
    by (simp add: set_field_def field_value_append)
next
  case (Some a)
  obtain i x where a: "a = (i, x)" by (cases a)
  have i: "i < length ls" "field_match key' (ls ! i) \<noteq> None"
    using get_field_Some Some a by blast+
  have "field_match key (ls ! i) = None"
    using assms i(2) by (rule other_key_unmatched)
  then show ?thesis
    using Some a i(1) other_key_line_unmatched [OF assms, of v]
    by (simp add: set_field_def field_value_update)
qed

lemma apply_fix_other:
  assumes "key \<in> set fix_keys" and "key' \<in> set fix_keys" and "key = key' \<longrightarrow> \<not> truthy fx"
  shows "field_value (apply_fix ls key' fx) key = field_value ls key"
  using assms set_field_other [of key key' ls "the fx"] by (auto simp: apply_fix_def)

lemma remove_fields_other:
  assumes "key \<in> set fix_keys"
  shows "field_value (remove_fields ls hash_keys) key = field_value ls key"
proof -
  have e: "[] \<notin> set hash_keys" by (simp add: hash_keys_def)
  have "\<forall>l \<in> set ls. \<not> \<not> removed hash_keys l \<longrightarrow> field_match key l = None"
    using hash_field_unmatched [OF assms] unfolding removed_iff [OF e] by blast
  then show ?thesis unfolding remove_fields_def by (rule field_value_filter)
qed

lemma untouched:
  assumes "key \<in> set fix_keys" and "\<not> truthy (correction plan key)"
  shows "field_value (fixed_lines ls plan @ hash_lines plan) key = field_value ls key"
proof -
  have k: "key = ''Package'' \<longrightarrow> \<not> truthy (fix_pkg plan)"
    "key = ''Version'' \<longrightarrow> \<not> truthy (fix_ver plan)"
    "key = ''Architecture'' \<longrightarrow> \<not> truthy (fix_arch plan)"
    "key = ''Filename'' \<longrightarrow> \<not> truthy (fix_filename plan)"
    "key = ''Icon'' \<longrightarrow> \<not> truthy (icon_url plan)"
    using assms(2) by (auto simp: correction_def)
  have m: "''Package'' \<in> set fix_keys" "''Version'' \<in> set fix_keys"
    "''Architecture'' \<in> set fix_keys" "''Filename'' \<in> set fix_keys" "''Icon'' \<in> set fix_keys"
    by (simp_all add: fix_keys_def)
  have "field_value (fixed_lines ls plan @ hash_lines plan) key = field_value (fixed_lines ls plan) key"
    using hash_line_unmatched [OF assms(1)] by (intro field_value_append) blast
  also have "\<dots> = field_value (remove_fields ls hash_keys) key"
    unfolding fixed_lines_def Let_def
    by (simp only: apply_fix_other [OF assms(1) m(5) k(5)] apply_fix_other [OF assms(1) m(4) k(4)]
        apply_fix_other [OF assms(1) m(3) k(3)] apply_fix_other [OF assms(1) m(2) k(2)]
        apply_fix_other [OF assms(1) m(1) k(1)])
  also have "\<dots> = field_value ls key"
    using assms(1) by (rule remove_fields_other)
  finally show ?thesis .
qed

section \<open>Corrections\<close>

lemma correction_simps:
  "correction plan ''Package'' = fix_pkg plan"
  "correction plan ''Version'' = fix_ver plan"
  "correction plan ''Architecture'' = fix_arch plan"
  "correction plan ''Filename'' = fix_filename plan"
  "correction plan ''Icon'' = icon_url plan"
  by (simp_all add: correction_def)

lemma drop_correction_simps:
  "drop_correction ''Package'' plan = plan\<lparr>fix_pkg := None\<rparr>"
  "drop_correction ''Version'' plan = plan\<lparr>fix_ver := None\<rparr>"
  "drop_correction ''Architecture'' plan = plan\<lparr>fix_arch := None\<rparr>"
  "drop_correction ''Filename'' plan = plan\<lparr>fix_filename := None\<rparr>"
  "drop_correction ''Icon'' plan = plan\<lparr>icon_url := None\<rparr>"
  by (simp_all add: drop_correction_def)

lemma fix_keys_cases:
  "key \<in> set fix_keys \<Longrightarrow>
     key = ''Package'' \<or> key = ''Version'' \<or> key = ''Architecture'' \<or> key = ''Filename''
     \<or> key = ''Icon''"
  by (simp add: fix_keys_def)

lemma plan_for_fields:
  assumes "plan_for fs only fm ai pfx i stanza = Inr (Some plan)"
  shows "\<exists>fv. field_value (splitlines stanza) ''Filename'' = Some fv \<and> fv \<noteq> []
           \<and> resolve_artifact fs (basename fv) = Inr (Some (filename plan, fix_filename plan))"
    and "fm \<Longrightarrow> parse_deb_filename (filename plan) = Some (pkg, ver, arch) \<Longrightarrow>
         fix_pkg plan = (if field_value (splitlines stanza) ''Package'' = Some pkg then None else Some pkg)
         \<and> fix_ver plan = (if field_value (splitlines stanza) ''Version'' = Some ver then None else Some ver)
         \<and> fix_arch plan = (if field_value (splitlines stanza) ''Architecture'' = Some arch then None else Some arch)"
proof -
  obtain fv where v: "field_value (splitlines stanza) ''Filename'' = Some fv" "fv \<noteq> []"
    using assms by (cases "field_value (splitlines stanza) ''Filename''")
      (auto simp: plan_for_def Let_def field_value_def split: if_splits)
  have x: "\<not> excluded only (basename fv)"
    using assms v by (auto simp: plan_for_def Let_def field_value_def split: if_splits)
  obtain actual ff where r: "resolve_artifact fs (basename fv) = Inr (Some (actual, ff))"
    using assms v x by (cases "resolve_artifact fs (basename fv)")
      (auto simp: plan_for_def Let_def field_value_def split: option.splits)
  obtain sz m s1 s2 where a: "read_artifact fs actual = Inr (sz, m, s1, s2)"
    using assms v x r by (cases "read_artifact fs actual")
      (auto simp: plan_for_def Let_def field_value_def)
  have p: "filename plan = actual" "fix_filename plan = ff"
    using assms v x r a by (auto simp: plan_for_def Let_def field_value_def)
  show "\<exists>fv. field_value (splitlines stanza) ''Filename'' = Some fv \<and> fv \<noteq> []
           \<and> resolve_artifact fs (basename fv) = Inr (Some (filename plan, fix_filename plan))"
    using v r p by simp
  assume fm and q: "parse_deb_filename (filename plan) = Some (pkg, ver, arch)"
  then have q': "parse_deb_filename actual = Some (pkg, ver, arch)" using p by simp
  show "fix_pkg plan = (if field_value (splitlines stanza) ''Package'' = Some pkg then None else Some pkg)
         \<and> fix_ver plan = (if field_value (splitlines stanza) ''Version'' = Some ver then None else Some ver)
         \<and> fix_arch plan = (if field_value (splitlines stanza) ''Architecture'' = Some arch then None else Some arch)"
    using assms v x r a q' \<open>fm\<close> by (auto simp: plan_for_def Let_def field_value_def)
qed

text \<open>
  Claim C6. With metadata fixing on and an artifact name that \<open>parse_deb_filename\<close> reads
  as \<open>(pkg, ver, arch)\<close>, a plan the Planner returns carries a correction for \<open>Package\<close>,
  \<open>Version\<close>, \<open>Architecture\<close> exactly when the value \<open>get_field\<close> reports for the field
  differs from the derived one (an absent field differs). A field without a correction has
  the same value in the lines \<open>apply_plans\<close> builds for the stanza as it had before.
\<close>

theorem metadata_fixed_where_different:
  assumes "build_update_plans fs stanzas only True ai pfx = Inr plans"
    and "plan \<in> set plans"
    and "parse_deb_filename (filename plan) = Some (pkg, ver, arch)"
    and "lines = splitlines (stanzas ! stanza_index plan)"
  shows "fix_pkg plan = (if field_value lines ''Package'' = Some pkg then None else Some pkg)
         \<and> fix_ver plan = (if field_value lines ''Version'' = Some ver then None else Some ver)
         \<and> fix_arch plan = (if field_value lines ''Architecture'' = Some arch then None else Some arch)
         \<and> (\<forall>key \<in> {''Package'', ''Version'', ''Architecture''}.
               correction plan key = None \<longrightarrow>
               field_value (fixed_lines lines plan @ hash_lines plan) key = field_value lines key)"
proof -
  have p: "plan_for fs only True ai pfx (stanza_index plan) (stanzas ! stanza_index plan)
             = Inr (Some plan)"
    using assms(1,2) build_update_plans_index by blast
  have "\<forall>key \<in> {''Package'', ''Version'', ''Architecture''}.
          correction plan key = None \<longrightarrow>
          field_value (fixed_lines lines plan @ hash_lines plan) key = field_value lines key"
  proof (intro ballI impI)
    fix key :: string
    assume "key \<in> {''Package'', ''Version'', ''Architecture''}" and c: "correction plan key = None"
    then have "key \<in> set fix_keys" by (auto simp: fix_keys_def)
    then show "field_value (fixed_lines lines plan @ hash_lines plan) key = field_value lines key"
      using c by (intro untouched) simp_all
  qed
  then show ?thesis
    using plan_for_fields(2) [OF p _ assms(3)] assms(4) by simp
qed

lemma example_meta_plans:
  "build_update_plans example_fs example_meta None True False None = Inr [example_meta_plan]"
  unfolding example_fs_def example_meta_def example_meta_plan_def by code_simp

lemma example_meta_values:
  "field_value (splitlines (example_meta ! 0)) ''Package'' = Some ''pkg1''"
  "field_value (splitlines (example_meta ! 0)) ''Version'' = Some ''0.9''"
  "field_value (splitlines (example_meta ! 0)) ''Architecture'' = None"
  unfolding example_meta_def by code_simp+

theorem metadata_fixed_where_different_witness:
  "build_update_plans example_fs example_meta None True False None = Inr [example_meta_plan]
   \<and> example_meta_plan \<in> set [example_meta_plan]
   \<and> parse_deb_filename (filename example_meta_plan) = Some (''pkg1'', ''1.0'', ''arm'')
   \<and> field_value (splitlines (example_meta ! 0)) ''Package'' = Some ''pkg1''
   \<and> field_value (splitlines (example_meta ! 0)) ''Version'' = Some ''0.9''
   \<and> fix_pkg example_meta_plan = None
   \<and> fix_ver example_meta_plan = Some ''1.0''
   \<and> fix_arch example_meta_plan = Some ''arm''
   \<and> field_value
         (fixed_lines (splitlines (example_meta ! 0)) example_meta_plan
          @ hash_lines example_meta_plan)
         ''Package'' = Some ''pkg1''"
proof -
  let ?plan = "example_meta_plan"
  have m: "?plan \<in> set [example_meta_plan]" by simp
  have i: "stanza_index ?plan = 0" "filename ?plan = ''pkg1_1.0_arm.deb''"
    by (simp_all add: example_meta_plan_def)
  have q: "parse_deb_filename (filename ?plan) = Some (''pkg1'', ''1.0'', ''arm'')"
    unfolding i by code_simp
  have l: "splitlines (example_meta ! 0) = splitlines (example_meta ! stanza_index ?plan)"
    using i by simp
  have c: "correction ?plan ''Package'' = None"
    by (simp add: example_meta_plan_def correction_simps)
  note t = metadata_fixed_where_different [OF example_meta_plans m q l]
  have "fix_pkg ?plan = None \<and> fix_ver ?plan = Some ''1.0'' \<and> fix_arch ?plan = Some ''arm''"
    using t example_meta_values by simp
  moreover have "field_value (fixed_lines (splitlines (example_meta ! 0)) ?plan @ hash_lines ?plan)
                   ''Package'' = Some ''pkg1''"
    using t c example_meta_values by simp
  ultimately show ?thesis using m q example_meta_values example_meta_plans by simp
qed

lemma drop_correction_fixed:
  assumes "key \<in> set fix_keys" and "correction plan key = Some []"
  shows "fixed_lines ls (drop_correction key plan) = fixed_lines ls plan"
  using fix_keys_cases [OF assms(1)]
proof (elim disjE)
  assume k: "key = ''Package''"
  then have "fix_pkg plan = Some []" using assms(2) by (simp only: correction_simps)
  then show ?thesis unfolding k drop_correction_simps by (simp add: fixed_lines_def apply_fix_def)
next
  assume k: "key = ''Version''"
  then have "fix_ver plan = Some []" using assms(2) by (simp only: correction_simps)
  then show ?thesis unfolding k drop_correction_simps by (simp add: fixed_lines_def apply_fix_def)
next
  assume k: "key = ''Architecture''"
  then have "fix_arch plan = Some []" using assms(2) by (simp only: correction_simps)
  then show ?thesis unfolding k drop_correction_simps by (simp add: fixed_lines_def apply_fix_def)
next
  assume k: "key = ''Filename''"
  then have "fix_filename plan = Some []" using assms(2) by (simp only: correction_simps)
  then show ?thesis unfolding k drop_correction_simps by (simp add: fixed_lines_def apply_fix_def)
next
  assume k: "key = ''Icon''"
  then have "icon_url plan = Some []" using assms(2) by (simp only: correction_simps)
  then show ?thesis unfolding k drop_correction_simps by (simp add: fixed_lines_def apply_fix_def)
qed

lemma drop_correction_apply:
  assumes "key \<in> set fix_keys" and "correction plan key = Some []"
  shows "apply_plan stanza (drop_correction key plan) = apply_plan stanza plan"
    and "stanza_index (drop_correction key plan) = stanza_index plan"
proof -
  have h: "hash_lines (drop_correction key plan) = hash_lines plan"
    by (simp add: drop_correction_def hash_lines_def)
  have i: "stanza_index (drop_correction key plan) = stanza_index plan"
    by (simp add: drop_correction_def)
  show "apply_plan stanza (drop_correction key plan) = apply_plan stanza plan"
    using drop_correction_fixed [OF assms] h by (simp add: apply_plan_def)
  show "stanza_index (drop_correction key plan) = stanza_index plan" by (rule i)
qed

lemma apply_plans_same:
  assumes "length ps = length qs"
    and "\<forall>i < length ps. stanza_index (qs ! i) = stanza_index (ps ! i)
           \<and> (\<forall>st. apply_plan st (qs ! i) = apply_plan st (ps ! i))"
  shows "apply_plans stanzas qs = apply_plans stanzas ps"
  using assms
proof (induction ps arbitrary: qs stanzas)
  case Nil
  then show ?case by simp
next
  case (Cons p ps)
  then obtain q qs' where q: "qs = q # qs'" by (cases qs) auto
  have h: "stanza_index q = stanza_index p" "\<And>st. apply_plan st q = apply_plan st p"
    using Cons.prems(2) q by auto
  have t: "\<forall>i < length ps. stanza_index (qs' ! i) = stanza_index (ps ! i)
           \<and> (\<forall>st. apply_plan st (qs' ! i) = apply_plan st (ps ! i))"
    using Cons.prems(2) q by auto
  have "length ps = length qs'" using Cons.prems(1) q by simp
  from Cons.IH [OF this t] show ?case using q h by simp
qed

text \<open>
  Claim C9. A plan that carries the empty string as its correction for \<open>Package\<close>,
  \<open>Version\<close>, \<open>Architecture\<close>, \<open>Filename\<close> or \<open>Icon\<close> is applied as the same plan
  without that correction, and the value of that field in the lines built for the stanza is
  the value it had before.
\<close>

theorem empty_correction_dropped:
  assumes "key \<in> set fix_keys" and "i < length plans"
    and "correction (plans ! i) key = Some []"
  shows "apply_plans stanzas plans = apply_plans stanzas (plans[i := drop_correction key (plans ! i)])
         \<and> field_value (fixed_lines lines (plans ! i) @ hash_lines (plans ! i)) key
             = field_value lines key"
proof
  let ?qs = "plans[i := drop_correction key (plans ! i)]"
  have "\<forall>j < length plans. stanza_index (?qs ! j) = stanza_index (plans ! j)
           \<and> (\<forall>st. apply_plan st (?qs ! j) = apply_plan st (plans ! j))"
    using drop_correction_apply [OF assms(1,3)] assms(2) by (simp add: nth_list_update)
  then have "apply_plans stanzas ?qs = apply_plans stanzas plans"
    by (intro apply_plans_same) simp_all
  then show "apply_plans stanzas plans = apply_plans stanzas ?qs" by simp
  show "field_value (fixed_lines lines (plans ! i) @ hash_lines (plans ! i)) key
          = field_value lines key"
    using assms(1,3) by (intro untouched) simp_all
qed

lemma example_arch_apply:
  "apply_plans [example_arch_stanza] [example_plan\<lparr>fix_arch := None\<rparr>] =
     Inr [join EOL [''Architecture: old'', ''Package: p'', ''Size: 12'', ''MD5sum: aa'',
                    ''SHA1: bb'', ''SHA256: cc'']]"
  unfolding example_arch_stanza_def example_plan_def by code_simp

lemma example_arch_value:
  "field_value (splitlines example_arch_stanza) ''Architecture'' = Some ''old''"
  unfolding example_arch_stanza_def by code_simp

theorem empty_correction_dropped_witness:
  "''Architecture'' \<in> set fix_keys \<and> 0 < length [example_plan]
   \<and> correction ([example_plan] ! 0) ''Architecture'' = Some []
   \<and> apply_plans [example_arch_stanza] [example_plan] =
       Inr [join EOL [''Architecture: old'', ''Package: p'', ''Size: 12'', ''MD5sum: aa'',
                      ''SHA1: bb'', ''SHA256: cc'']]
   \<and> field_value (fixed_lines (splitlines example_arch_stanza) example_plan @ hash_lines example_plan)
         ''Architecture'' = Some ''old''"
proof -
  have k: "''Architecture'' \<in> set fix_keys" by (simp add: fix_keys_def)
  have n: "0 < length [example_plan]" by simp
  have c: "correction ([example_plan] ! 0) ''Architecture'' = Some []"
    by (simp add: correction_simps example_plan_def)
  have d: "[example_plan][0 := drop_correction ''Architecture'' ([example_plan] ! 0)]
             = [example_plan\<lparr>fix_arch := None\<rparr>]"
    by (simp add: drop_correction_simps)
  note t = empty_correction_dropped [OF k n c, of "[example_arch_stanza]"
      "splitlines example_arch_stanza"]
  have e: "apply_plans [example_arch_stanza] [example_plan] =
             apply_plans [example_arch_stanza] [example_plan\<lparr>fix_arch := None\<rparr>]"
    using t [THEN conjunct1] unfolding d .
  have r: "apply_plans [example_arch_stanza] [example_plan] =
       Inr [join EOL [''Architecture: old'', ''Package: p'', ''Size: 12'', ''MD5sum: aa'',
                      ''SHA1: bb'', ''SHA256: cc'']]"
    using e example_arch_apply by (rule trans)
  have "[example_plan] ! 0 = example_plan" by simp
  then have v: "field_value (fixed_lines (splitlines example_arch_stanza) example_plan
                   @ hash_lines example_plan) ''Architecture''
                 = field_value (splitlines example_arch_stanza) ''Architecture''"
    using t [THEN conjunct2] by (simp only:)
  have w: "field_value (fixed_lines (splitlines example_arch_stanza) example_plan
                   @ hash_lines example_plan) ''Architecture'' = Some ''old''"
    using v example_arch_value by (rule trans)
  show ?thesis using k n c r w by blast
qed

section \<open>Recorded filenames\<close>

lemma basename_no_slash: "CHR ''/'' \<notin> set (basename p)"
  by (auto simp: basename_def dest: set_takeWhileD)

lemma no_slash_no_prefix: "CHR ''/'' \<notin> set s \<Longrightarrow> \<not> startswith s ''./''"
proof
  assume n: "CHR ''/'' \<notin> set s" and "startswith s ''./''"
  then have "take (length ''./'') s = ''./''" by (simp only: startswith_def)
  then have "CHR ''/'' \<in> set (take (length ''./'') s)" by (simp only:) simp
  then show False using n by (auto dest: in_set_takeD)
qed

lemma set_field_has: "key @ '': '' @ v \<in> set (set_field ls key v)"
proof (cases "get_field ls key")
  case None
  then show ?thesis by (simp add: set_field_def)
next
  case (Some a)
  obtain i x where a: "a = (i, x)" by (cases a)
  have "i < length ls" using get_field_Some Some a by blast
  then show ?thesis using Some a by (simp add: set_field_def set_update_memI)
qed

lemma set_field_keeps:
  assumes "l \<in> set ls" and "field_match key l = None"
  shows "l \<in> set (set_field ls key v)"
proof (cases "get_field ls key")
  case None
  then show ?thesis using assms(1) by (simp add: set_field_def)
next
  case (Some a)
  obtain i x where a: "a = (i, x)" by (cases a)
  have i: "i < length ls" "field_match key (ls ! i) \<noteq> None"
    using get_field_Some Some a by blast+
  obtain j where j: "j < length ls" "ls ! j = l" using assms(1) by (auto simp: in_set_conv_nth)
  have "j \<noteq> i" using i(2) j(2) assms(2) by auto
  then have "(ls[i := key @ '': '' @ v]) ! j = l" using j by simp
  moreover have "j < length (ls[i := key @ '': '' @ v])" using j by simp
  ultimately have "l \<in> set (ls[i := key @ '': '' @ v])" by (metis nth_mem)
  then show ?thesis using Some a by (simp add: set_field_def)
qed

lemma apply_fix_keeps:
  "l \<in> set ls \<Longrightarrow> field_match key l = None \<Longrightarrow> l \<in> set (apply_fix ls key fx)"
  by (simp add: apply_fix_def set_field_keeps)

lemma filename_line_written:
  assumes "fix_filename plan = Some f" and "f \<noteq> []"
  shows "''Filename: '' @ f \<in> set (fixed_lines ls plan)"
proof -
  have k: "''Icon'' \<in> set fix_keys" "''Filename'' \<in> set fix_keys" "''Icon'' \<noteq> ''Filename''"
    by (simp_all add: fix_keys_def)
  have u: "field_match ''Icon'' (''Filename'' @ '': '' @ f) = None"
    using k by (rule other_key_line_unmatched)
  have w: "''Filename'' @ '': '' @ f \<in> set (apply_fix l3 ''Filename'' (fix_filename plan))" for l3
    using assms set_field_has [of "''Filename''" f l3] by (simp add: apply_fix_def)
  have "''Filename'' @ '': '' @ f
      \<in> set (apply_fix (apply_fix l3 ''Filename'' (fix_filename plan)) ''Icon'' (icon_url plan))" for l3
    using w [of l3] u by (rule apply_fix_keeps)
  then show ?thesis by (simp add: fixed_lines_def Let_def)
qed

text \<open>
  Claim C8, as stated, fails: the corrected \<open>Filename\<close> of a stanza matched by its stem is
  \<open>./debs/\<close> followed by the name found, and it is written to the stanza with the
  leading \<open>./\<close>.
\<close>

theorem corrected_filename_counterexample:
  "build_update_plans example_fs example_fuzzy None False False None = Inr [example_fuzzy_plan]
   \<and> fix_filename example_fuzzy_plan = Some ''./debs/stem.a.deb''
   \<and> startswith ''./debs/stem.a.deb'' ''./''
   \<and> apply_plans example_fuzzy [example_fuzzy_plan]
       = Inr [join EOL [''Filename: ./debs/stem.a.deb'', ''Size: 12'', ''MD5sum: md5-stem.a.deb'',
                        ''SHA1: sha1-stem.a.deb'', ''SHA256: sha256-stem.a.deb'']]"
  unfolding example_fs_def example_fuzzy_def example_fuzzy_plan_def by code_simp

text \<open>
  Claim C8, amended. The artifact name a plan records for a stanza whose declared
  basename exists is that basename: it holds no slash, so no leading \<open>./\<close>. For a stanza
  matched by its stem the plan records the corrected filename \<open>./debs/\<close> followed by the
  artifact name, which does begin with \<open>./\<close>, and \<open>apply_plans\<close> puts the line
  \<open>Filename: ./debs/<name>\<close> among the lines of the stanza.
\<close>

theorem recorded_filenames:
  assumes "build_update_plans fs stanzas only fm ai pfx = Inr plans"
    and "plan \<in> set plans"
  shows "(fix_filename plan = None \<longrightarrow>
            declared_basename (stanzas ! stanza_index plan) = Some (filename plan)
            \<and> CHR ''/'' \<notin> set (filename plan) \<and> \<not> startswith (filename plan) ''./'')
         \<and> (fix_filename plan \<noteq> None \<longrightarrow>
              fix_filename plan = Some (''./debs/'' @ filename plan)
              \<and> startswith (''./debs/'' @ filename plan) ''./''
              \<and> ''Filename: ./debs/'' @ filename plan
                  \<in> set (fixed_lines (splitlines (stanzas ! stanza_index plan)) plan))"
proof -
  let ?st = "stanzas ! stanza_index plan"
  have p: "plan_for fs only fm ai pfx (stanza_index plan) ?st = Inr (Some plan)"
    using assms build_update_plans_index by blast
  obtain fv where v: "field_value (splitlines ?st) ''Filename'' = Some fv" "fv \<noteq> []"
    and r: "resolve_artifact fs (basename fv) = Inr (Some (filename plan, fix_filename plan))"
    using plan_for_fields(1) [OF p] by blast
  have d: "declared_basename ?st = Some (basename fv)"
    using v by (auto simp: declared_basename_def field_value_def split: option.splits)
  have c: "(fix_filename plan = None \<and> filename plan = basename fv)
           \<or> fix_filename plan = Some (''./debs/'' @ filename plan)"
    using resolve_artifact_cases [OF r] by blast
  show ?thesis
  proof (intro conjI impI)
    assume n: "fix_filename plan = None"
    then have e: "filename plan = basename fv" using c by auto
    show "declared_basename ?st = Some (filename plan)" using d e by simp
    show s: "CHR ''/'' \<notin> set (filename plan)" unfolding e by (rule basename_no_slash)
    show "\<not> startswith (filename plan) ''./''" using s by (rule no_slash_no_prefix)
  next
    assume n: "fix_filename plan \<noteq> None"
    then show f: "fix_filename plan = Some (''./debs/'' @ filename plan)" using c by auto
    show "startswith (''./debs/'' @ filename plan) ''./''" by (simp add: startswith_def)
    show "''Filename: ./debs/'' @ filename plan \<in> set (fixed_lines (splitlines ?st) plan)"
      using filename_line_written [OF f, of "splitlines ?st"] by simp
  qed
qed

lemma example_fuzzy_plans:
  "build_update_plans example_fs example_fuzzy None False False None = Inr [example_fuzzy_plan]"
  unfolding example_fs_def example_fuzzy_def example_fuzzy_plan_def by code_simp

theorem recorded_filenames_witness:
  "build_update_plans example_fs example_fuzzy None False False None = Inr [example_fuzzy_plan]
   \<and> example_fuzzy_plan \<in> set [example_fuzzy_plan]
   \<and> fix_filename example_fuzzy_plan = Some ''./debs/stem.a.deb''
   \<and> ''Filename: ./debs/stem.a.deb''
       \<in> set (fixed_lines (splitlines (example_fuzzy ! 0)) example_fuzzy_plan)
   \<and> build_update_plans example_fs example_meta None True False None = Inr [example_meta_plan]
   \<and> example_meta_plan \<in> set [example_meta_plan]
   \<and> fix_filename example_meta_plan = None
   \<and> declared_basename (example_meta ! 0) = Some ''pkg1_1.0_arm.deb''
   \<and> \<not> startswith ''pkg1_1.0_arm.deb'' ''./''"
proof -
  let ?p = "example_fuzzy_plan"
  let ?q = "example_meta_plan"
  have m: "?p \<in> set [example_fuzzy_plan]" by simp
  have f: "fix_filename ?p \<noteq> None" "filename ?p = ''stem.a.deb''" "stanza_index ?p = 0"
    by (simp_all add: example_fuzzy_plan_def)
  have 1: "fix_filename ?p = Some ''./debs/stem.a.deb''
           \<and> ''Filename: ./debs/stem.a.deb'' \<in> set (fixed_lines (splitlines (example_fuzzy ! 0)) ?p)"
    using recorded_filenames [OF example_fuzzy_plans m] f by simp
  have n: "?q \<in> set [example_meta_plan]" by simp
  have g: "fix_filename ?q = None" "filename ?q = ''pkg1_1.0_arm.deb''" "stanza_index ?q = 0"
    by (simp_all add: example_meta_plan_def)
  have 2: "declared_basename (example_meta ! 0) = Some ''pkg1_1.0_arm.deb''
           \<and> \<not> startswith ''pkg1_1.0_arm.deb'' ''./''"
    using recorded_filenames [OF example_meta_plans n] g by simp
  show ?thesis using m n 1 2 g(1) example_fuzzy_plans example_meta_plans by blast
qed

section \<open>Parsing joined stanzas\<close>

declare re_split_from.simps [simp del]

lemma CR_neq_LF: "CR \<noteq> LF"
  by (simp add: CR_def LF_def)

lemma ms_Atom_Lit: "ms (Atom (Lit c)) w s = (case s of [] \<Rightarrow> [] | x # t \<Rightarrow> if x = c then [t] else [])"
  by (cases s) (simp_all add: ms_Atom_Nil ms_Atom_Cons)

lemma ms_Seq: "ms (Seq a b) w s = concat (map (ms b w) (ms a w s))"
  by (simp add: ms.simps)

lemma ms_break:
  "ms line_break w s = (case after_break s of None \<Rightarrow> [] | Some t \<Rightarrow> [t])"
proof (cases s)
  case Nil
  then show ?thesis by (simp add: line_break_def ms_Seq ms_Opt ms_Atom_Lit)
next
  case (Cons a s')
  show ?thesis
  proof (cases s')
    case Nil
    then show ?thesis
      using Cons CR_neq_LF by (auto simp: line_break_def ms_Seq ms_Opt ms_Atom_Lit)
  next
    case (Cons b t)
    then show ?thesis
      using \<open>s = a # s'\<close> CR_neq_LF by (auto simp: line_break_def ms_Seq ms_Opt ms_Atom_Lit)
  qed
qed

lemma after_break_shorter: "after_break s = Some t \<Longrightarrow> length t < length s"
  by (induction s rule: after_break.induct) (auto split: if_splits)

lemma ms_Star_break:
  "ms (Star line_break) w s =
     (case after_break s of
        None \<Rightarrow> [s]
      | Some t \<Rightarrow> ms (Star line_break) w t @ [s])"
  by (subst ms_Star_unfold) (auto simp: ms_break dest: after_break_shorter split: option.splits)

lemma ms_stanza_sep:
  "ms stanza_sep w s =
     (case after_break s of
        None \<Rightarrow> []
      | Some t \<Rightarrow> (case after_break t of None \<Rightarrow> [] | Some u \<Rightarrow> ms (Star line_break) w u))"
proof -
  have 1: "ms stanza_sep w s = concat (map (ms (Seq line_break (Star line_break)) w) (ms line_break w s))"
    unfolding stanza_sep_def AtLeast2_def by (rule ms_Seq)
  have 2: "ms (Seq line_break (Star line_break)) w t
             = concat (map (ms (Star line_break) w) (ms line_break w t))" for t
    by (rule ms_Seq)
  show ?thesis
    unfolding 1 2 ms_break by (simp split: option.splits)
qed

lemma ms_stanza_sep_None: "\<not> two_breaks s \<Longrightarrow> ms stanza_sep w s = []"
  by (auto simp: ms_stanza_sep two_breaks_def split: option.splits)

lemma length_EOL: "length EOL = 2"
  by (simp add: EOL_def)

lemma ms_stanza_sep_EOL2:
  assumes "after_break y = None"
  shows "ms stanza_sep w (EOL @ EOL @ y) = [y]"
proof -
  have 1: "after_break (EOL @ EOL @ y) = Some (EOL @ y)"
    using CR_neq_LF by (simp add: EOL_def)
  have 2: "after_break (EOL @ y) = Some y"
    using CR_neq_LF by (simp add: EOL_def)
  have 3: "ms (Star line_break) w y = [y]"
    by (subst ms_Star_break) (simp add: assms)
  show ?thesis
    by (simp add: ms_stanza_sep 1 2 3)
qed

lemma split_skip:
  "\<forall>k < length x. \<not> two_breaks (drop k x @ z) \<Longrightarrow>
     re_split_from stanza_sep w cur (x @ z) = re_split_from stanza_sep w (cur @ x) z"
proof (induction x arbitrary: cur)
  case Nil
  then show ?case by simp
next
  case (Cons a x)
  have "\<not> two_breaks (drop 0 (a # x) @ z)" using Cons.prems by blast
  then have m: "ms stanza_sep w (a # x @ z) = []" by (simp add: ms_stanza_sep_None)
  have "\<forall>k < length x. \<not> two_breaks (drop k x @ z)"
  proof (intro allI impI)
    fix k assume "k < length x"
    then have "\<not> two_breaks (drop (Suc k) (a # x) @ z)" using Cons.prems by auto
    then show "\<not> two_breaks (drop k x @ z)" by simp
  qed
  from Cons.IH [OF this, of "cur @ [a]"] show ?case
    by (subst re_split_from.simps) (simp add: m)
qed

lemma split_end: "re_split_from stanza_sep w cur [] = [cur]"
  by (subst re_split_from.simps) (simp add: ms_stanza_sep_None two_breaks_def)

lemma split_at_sep:
  assumes "after_break y = None"
  shows "re_split_from stanza_sep w cur (EOL @ EOL @ y) = cur # re_split_from stanza_sep w [] y"
  by (subst re_split_from.simps) (simp add: ms_stanza_sep_EOL2 [OF assms] length_EOL)

lemma split_last_EOL: "re_split_from stanza_sep w cur EOL = [cur @ EOL]"
proof -
  have "\<forall>k < length EOL. \<not> two_breaks (drop k EOL @ [])"
  proof (intro allI impI)
    fix k assume "k < length EOL"
    then have "k = 0 \<or> k = 1" by (auto simp: EOL_def)
    then show "\<not> two_breaks (drop k EOL @ [])"
      using CR_neq_LF by (auto simp: EOL_def two_breaks_def)
  qed
  from split_skip [OF this, of w cur] show ?thesis by (simp add: split_end)
qed

lemma isspace_CR_LF: "isspace CR" "isspace LF"
  by (simp_all add: isspace_def CR_def LF_def)

lemma after_break_plain: "\<not> isspace c \<Longrightarrow> after_break (c # s) = None"
  using isspace_CR_LF by (cases s) auto

lemma after_break_append:
  assumes "after_break (x @ z) = Some t" and "x \<noteq> []" and "\<not> isspace (last x)"
  shows "\<exists>t'. after_break x = Some t' \<and> t = t' @ z \<and> t' \<noteq> [] \<and> last t' = last x"
proof (cases x)
  case Nil
  then show ?thesis using assms(2) by simp
next
  case (Cons a x')
  show ?thesis
  proof (cases x')
    case Nil
    then have "\<not> isspace a" using assms(3) Cons by simp
    then have "after_break (x @ z) = None" using Cons by (simp add: after_break_plain)
    then show ?thesis using assms(1) by simp
  next
    case x': (Cons b x'')
    have l: "last x = last (b # x'')" using Cons x' by simp
    show ?thesis
    proof (cases "a = LF")
      case True
      then show ?thesis using assms(1) Cons x' by auto
    next
      case False
      then have c: "a = CR" "b = LF" "t = x'' @ z"
        using assms(1) Cons x' by (auto split: if_splits)
      have "x'' \<noteq> []"
      proof
        assume "x'' = []"
        then have "last x = LF" using Cons x' c by simp
        then show False using assms(3) isspace_CR_LF by simp
      qed
      then show ?thesis using c False Cons x' by auto
    qed
  qed
qed

lemma two_breaks_append:
  assumes "two_breaks (x @ z)" and "x \<noteq> []" and "\<not> isspace (last x)"
  shows "two_breaks x"
proof -
  obtain t u where t: "after_break (x @ z) = Some t" and u: "after_break t = Some u"
    using assms(1) by (auto simp: two_breaks_def split: option.splits)
  obtain t' where t': "after_break x = Some t'" "t = t' @ z" "t' \<noteq> []" "last t' = last x"
    using after_break_append [OF t assms(2,3)] by blast
  have "after_break (t' @ z) = Some u" using u t' by simp
  then obtain u' where "after_break t' = Some u'"
    using after_break_append [of t' z u] t' assms(3) by auto
  then show ?thesis using t' by (simp add: two_breaks_def)
qed

lemma has_blank_run_drop: "\<not> has_blank_run x \<Longrightarrow> \<not> two_breaks (drop k x)"
proof (induction x arbitrary: k)
  case Nil
  then show ?case by (simp add: two_breaks_def)
next
  case (Cons a x)
  then show ?case by (cases k) auto
qed

lemma no_run_inside:
  assumes "\<not> has_blank_run x" and "x \<noteq> []" and "\<not> isspace (last x)"
  shows "\<forall>k < length x. \<not> two_breaks (drop k x @ z)"
proof (intro allI impI notI)
  fix k assume k: "k < length x" and "two_breaks (drop k x @ z)"
  moreover have "drop k x \<noteq> []" "last (drop k x) = last x" using k by simp_all
  ultimately have "two_breaks (drop k x)" using assms(3) two_breaks_append by metis
  then show False using assms(1) has_blank_run_drop by blast
qed

lemma split_stanza_then_sep:
  assumes "trimmed x" and "\<not> has_blank_run x" and "trimmed y"
  shows "re_split_from stanza_sep w cur (x @ (EOL @ EOL) @ y @ z)
           = (cur @ x) # re_split_from stanza_sep w [] (y @ z)"
proof -
  have n: "\<forall>k < length x. \<not> two_breaks (drop k x @ (EOL @ EOL @ y @ z))"
    using assms(1,2) by (intro no_run_inside) (simp_all add: trimmed_def)
  obtain c y' where "y = c # y'" "\<not> isspace c" using assms(3) by (cases y) (auto simp: trimmed_def)
  then have a: "after_break (y @ z) = None" by (simp add: after_break_plain)
  show ?thesis
    using split_skip [OF n, of w cur] split_at_sep [OF a, of w "cur @ x"] by simp
qed

lemma split_last_stanza:
  assumes "trimmed x" and "\<not> has_blank_run x"
  shows "re_split_from stanza_sep w cur (x @ EOL) = [cur @ x @ EOL]"
proof -
  have n: "\<forall>k < length x. \<not> two_breaks (drop k x @ EOL)"
    using assms by (intro no_run_inside) (simp_all add: trimmed_def)
  show ?thesis
    using split_skip [OF n, of w cur] split_last_EOL [of w "cur @ x"] by simp
qed

lemma split_joined:
  assumes "xs \<noteq> []" and "\<forall>x \<in> set xs. trimmed x \<and> \<not> has_blank_run x"
  shows "re_split_from stanza_sep w [] (join (EOL @ EOL) xs @ EOL) = butlast xs @ [last xs @ EOL]"
  using assms
proof (induction xs rule: list_nonempty_induct)
  case (single x)
  then show ?case using split_last_stanza [of x w "[]"] by simp
next
  case (cons x xs)
  obtain y zs where yz: "xs = y # zs" using cons.hyps by (cases xs) auto
  have t: "trimmed x" "\<not> has_blank_run x" "trimmed y" using cons.prems yz by simp_all
  have r: "\<forall>x \<in> set xs. trimmed x \<and> \<not> has_blank_run x" using cons.prems by simp
  obtain rest where j: "join (EOL @ EOL) xs = y @ rest"
    unfolding yz by (cases zs) auto
  have "re_split_from stanza_sep w [] (join (EOL @ EOL) (x # xs) @ EOL)
          = re_split_from stanza_sep w [] (x @ (EOL @ EOL) @ y @ (rest @ EOL))"
    using j yz by simp
  also have "\<dots> = x # re_split_from stanza_sep w [] (y @ (rest @ EOL))"
    using split_stanza_then_sep [OF t, of w "[]" "rest @ EOL"] by simp
  also have "\<dots> = x # re_split_from stanza_sep w [] (join (EOL @ EOL) xs @ EOL)"
    using j by simp
  also have "\<dots> = x # (butlast xs @ [last xs @ EOL])"
    using cons.IH [OF r] by simp
  finally show ?case using cons.hyps by simp
qed

lemma strip_trimmed: "strip s \<noteq> [] \<Longrightarrow> trimmed (strip s)"
proof -
  assume ne: "strip s \<noteq> []"
  let ?l = "lstrip s"
  obtain t where t: "?l = strip s @ t" using rstrip_prefix [of ?l] by (auto simp: strip_def)
  have l: "?l \<noteq> []" using ne t by auto
  then have "\<not> isspace (hd ?l)"
    using hd_dropWhile [of isspace s] by (simp add: lstrip_def)
  then have h: "\<not> isspace (hd (strip s))" using t ne by (cases "strip s") auto
  have d: "dropWhile isspace (rev ?l) \<noteq> []" using ne by (simp add: strip_def rstrip_def)
  then have "\<not> isspace (hd (dropWhile isspace (rev ?l)))" by (rule hd_dropWhile)
  moreover have "last (strip s) = hd (dropWhile isspace (rev ?l))"
    using d by (simp add: strip_def rstrip_def last_rev)
  ultimately show ?thesis using ne h by (simp add: trimmed_def)
qed

lemma strip_of_trimmed: "trimmed x \<Longrightarrow> strip x = x"
  by (simp add: trimmed_def strip_plain)

lemma spaces_EOL: "spaces EOL"
  using isspace_CR_LF by (simp add: EOL_def)

lemma strip_EOL: "strip (x @ EOL) = strip x"
  using strip_spaces [of "[]" EOL x] spaces_EOL by simp

text \<open>
  Claim C1, as stated, fails on every list: \<open>join_stanzas\<close> ends the text with CR LF,
  which is a single line break, so \<open>parse_stanzas\<close> leaves it at the end of the last
  stanza.
\<close>

theorem parse_join_counterexample:
  "parse_stanzas (join_stanzas [''a'']) = [''a'' @ EOL]
   \<and> parse_stanzas (join_stanzas [''a'']) \<noteq> [''a'']"
  by code_simp

text \<open>
  Claim C1, amended. For a non-empty list of stanzas that are not blank and, once
  trimmed, hold no two line breaks in a row (LF or CR LF, whatever line endings they use
  otherwise), parsing the joined text gives the trimmed stanzas in order, the last one
  followed by CR LF; so the round trip returns the list up to trimming.
\<close>

theorem parse_join_stanzas:
  assumes "S \<noteq> []"
    and "\<forall>s \<in> set S. strip s \<noteq> [] \<and> \<not> has_blank_run (strip s)"
  shows "parse_stanzas (join_stanzas S) = map strip (butlast S) @ [strip (last S) @ EOL]
         \<and> map strip (parse_stanzas (join_stanzas S)) = map strip S"
proof -
  let ?X = "map strip S"
  have ne: "?X \<noteq> []" using assms(1) by simp
  have g: "\<forall>x \<in> set ?X. trimmed x \<and> \<not> has_blank_run x"
    using assms(2) by (auto simp: strip_trimmed)
  have sp: "re_split stanza_sep (join_stanzas S) = butlast ?X @ [last ?X @ EOL]"
    unfolding re_split_def join_stanzas_def by (rule split_joined [OF ne g])
  have t: "trimmed x" if "x \<in> set ?X" for x using g that by blast
  have l: "last ?X \<in> set ?X" using ne by (rule last_in_set)
  have k: "strip p \<noteq> []" if "p \<in> set (butlast ?X @ [last ?X @ EOL])" for p
  proof -
    from that consider "p \<in> set (butlast ?X)" | "p = last ?X @ EOL" by auto
    then show ?thesis
    proof cases
      case 1
      then have "trimmed p" using t in_set_butlastD by metis
      then show ?thesis using strip_of_trimmed by (simp add: trimmed_def)
    next
      case 2
      have "trimmed (last ?X)" using t l by blast
      then show ?thesis unfolding 2 strip_EOL using strip_of_trimmed by (simp add: trimmed_def)
    qed
  qed
  have "filter (\<lambda>p. strip p \<noteq> []) (butlast ?X @ [last ?X @ EOL]) = butlast ?X @ [last ?X @ EOL]"
    using k by (intro filter_True) blast
  then have p: "parse_stanzas (join_stanzas S) = butlast ?X @ [last ?X @ EOL]"
    by (simp add: parse_stanzas_def sp)
  have b: "butlast ?X = map strip (butlast S)" by (simp add: map_butlast)
  have m: "last ?X = strip (last S)" using assms(1) by (simp add: last_map)
  have 1: "parse_stanzas (join_stanzas S) = map strip (butlast S) @ [strip (last S) @ EOL]"
    using p b m by simp
  have i: "strip (strip s) = strip s" if "s \<in> set S" for s
    using that assms(2) strip_trimmed strip_of_trimmed by blast
  have "map strip (map strip (butlast S)) = map strip (butlast S)"
    using i in_set_butlastD by (fastforce simp: map_idI)
  moreover have "strip (strip (last S) @ EOL) = strip (last S)"
    unfolding strip_EOL using i assms(1) by simp
  ultimately have "map strip (parse_stanzas (join_stanzas S)) = map strip (butlast S) @ [strip (last S)]"
    unfolding 1 by simp
  also have "\<dots> = map strip (butlast S @ [last S])" by simp
  also have "\<dots> = map strip S" using assms(1) by simp
  finally show ?thesis using 1 by blast
qed

lemma example_stanzas_good:
  "strip (example_stanzas ! 0) \<noteq> [] \<and> \<not> has_blank_run (strip (example_stanzas ! 0))
   \<and> strip (example_stanzas ! 1) \<noteq> [] \<and> \<not> has_blank_run (strip (example_stanzas ! 1))"
  unfolding example_stanzas_def by code_simp

lemma example_stanzas_strip:
  "map strip example_stanzas =
     [''Package: a'' @ [LF] @ ''Version: 1'', ''Package: b'' @ EOL @ ''Version: 2'']"
  unfolding example_stanzas_def by code_simp

theorem parse_join_stanzas_witness:
  "example_stanzas \<noteq> []
   \<and> strip (example_stanzas ! 0) \<noteq> [] \<and> \<not> has_blank_run (strip (example_stanzas ! 0))
   \<and> strip (example_stanzas ! 1) \<noteq> [] \<and> \<not> has_blank_run (strip (example_stanzas ! 1))
   \<and> parse_stanzas (join_stanzas example_stanzas) =
       [''Package: a'' @ [LF] @ ''Version: 1'', ''Package: b'' @ EOL @ ''Version: 2'' @ EOL]
   \<and> map strip (parse_stanzas (join_stanzas example_stanzas)) =
       [''Package: a'' @ [LF] @ ''Version: 1'', ''Package: b'' @ EOL @ ''Version: 2'']"
proof -
  have n: "example_stanzas \<noteq> []" by (simp add: example_stanzas_def)
  have s: "set example_stanzas = {example_stanzas ! 0, example_stanzas ! 1}"
    by (simp add: example_stanzas_def)
  have a: "\<forall>s \<in> set example_stanzas. strip s \<noteq> [] \<and> \<not> has_blank_run (strip s)"
    unfolding s using example_stanzas_good by blast
  have b: "map strip (butlast example_stanzas) = [''Package: a'' @ [LF] @ ''Version: 1'']"
    "strip (last example_stanzas) = ''Package: b'' @ EOL @ ''Version: 2''"
    using example_stanzas_strip by (simp_all add: example_stanzas_def)
  note t = parse_join_stanzas [OF n a]
  have 1: "parse_stanzas (join_stanzas example_stanzas) =
             [''Package: a'' @ [LF] @ ''Version: 1''] @ [(''Package: b'' @ EOL @ ''Version: 2'') @ EOL]"
    using t [THEN conjunct1] unfolding b .
  have 2: "map strip (parse_stanzas (join_stanzas example_stanzas)) =
       [''Package: a'' @ [LF] @ ''Version: 1'', ''Package: b'' @ EOL @ ''Version: 2'']"
    using t [THEN conjunct2] unfolding example_stanzas_strip .
  have 3: "[''Package: a'' @ [LF] @ ''Version: 1''] @ [(''Package: b'' @ EOL @ ''Version: 2'') @ EOL]
         = [''Package: a'' @ [LF] @ ''Version: 1'', ''Package: b'' @ EOL @ ''Version: 2'' @ EOL]"
    by simp
  have "parse_stanzas (join_stanzas example_stanzas) =
       [''Package: a'' @ [LF] @ ''Version: 1'', ''Package: b'' @ EOL @ ''Version: 2'' @ EOL]
   \<and> map strip (parse_stanzas (join_stanzas example_stanzas)) =
       [''Package: a'' @ [LF] @ ''Version: 1'', ''Package: b'' @ EOL @ ''Version: 2'']"
    using 1 2 unfolding 3 by (rule conjI)
  then show ?thesis using n example_stanzas_good by blast
qed

end
